theory Spec2Isabelle
  imports Complex_Main "HOL-Library.AList"
begin

section \<open>The abstract plot, as \<open>render\<close> reads it\<close>

text \<open>
  \<open>dagviz/render.py\<close> walks an \<open>AbstractPlot\<close>. The classes themselves live in
  \<open>dagviz/abstract.py\<close>; the fields below are exactly the attributes that \<open>render\<close>
  reads: of a plot \<open>rows\<close>, \<open>colors\<close> and \<open>columns.start\<close>; of a row \<open>row\<close>,
  \<open>label\<close> and the dictionary \<open>columns\<close>; of a cell \<open>column\<close>, \<open>color\<close>,
  \<open>is_node\<close>, \<open>is_input\<close>, \<open>is_last\<close> and the back reference \<open>start_row\<close>.
  A cell may carry both flags \<open>is_node\<close> and \<open>is_input\<close>: that is the only way the
  branch \<open>node_pos == 0\<close> of \<open>render\<close> is ever reached.

  The dictionary \<open>columns\<close> of a row is kept as the list of its cells, each filed under its
  own \<open>column\<close>. The back reference \<open>start_row\<close> is the referenced row itself (\<open>None\<close>
  when the attribute holds no row). Python integers are unbounded, hence \<open>int\<close>.
\<close>

datatype error = KeyError | AttributeError | InvalidOrderingError

datatype AbstractColumn =
  AbstractColumn (column: int) (color: int) (is_node: bool) (is_input: bool)
    (is_last: bool) (start_row: "AbstractRow option")
and AbstractRow =
  AbstractRow (row: int) (label: string) (columns: "AbstractColumn list")

record AbstractPlot =
  rows :: "AbstractRow list"
  colors :: int
  columns_start :: int

text \<open>\<open>row.columns[c]\<close>: the cell filed under column \<open>c\<close>; a missing key raises.\<close>

definition columns_get :: "AbstractRow \<Rightarrow> int \<Rightarrow> error + AbstractColumn" where
  "columns_get r c =
     (case find (\<lambda>x. column x = c) (columns r) of
        None \<Rightarrow> Inl KeyError
      | Some x \<Rightarrow> Inr x)"

text \<open>
  Modelled from the spec: \<open>AbstractRow.__iter__\<close> (in \<open>dagviz/abstract.py\<close>), which
  \<open>for col in row\<close> calls. The spec, section 4.2: "Per row, process its Columns in
  ascending column-index order".
\<close>

definition row_iter :: "AbstractRow \<Rightarrow> AbstractColumn list" where
  "row_iter r = sort_key column (columns r)"

section \<open>The drawing backend\<close>

type_synonym pos = "int \<times> int"

text \<open>
  \<open>iStyle\<close>: the methods that \<open>render\<close> calls on the style object. Each method returns
  nothing and changes the style object, of whose state \<open>'s\<close> the renderer knows nothing.
\<close>

record 's iStyle =
  place_node :: "pos \<Rightarrow> int \<Rightarrow> string \<Rightarrow> 's \<Rightarrow> 's"
  place_left_hline :: "pos \<Rightarrow> pos \<Rightarrow> int \<Rightarrow> 's \<Rightarrow> 's"
  place_right_hline :: "pos \<Rightarrow> pos \<Rightarrow> int \<Rightarrow> 's \<Rightarrow> 's"
  place_vline_arc :: "pos \<Rightarrow> pos \<Rightarrow> int \<Rightarrow> 's \<Rightarrow> 's"
  place_vline_node :: "pos \<Rightarrow> pos \<Rightarrow> int \<Rightarrow> 's \<Rightarrow> 's"
  place_left_arc :: "pos \<Rightarrow> int \<Rightarrow> 's \<Rightarrow> 's"
  place_right_arc :: "pos \<Rightarrow> int \<Rightarrow> 's \<Rightarrow> 's"
  place_label :: "pos \<Rightarrow> pos \<Rightarrow> string \<Rightarrow> 's \<Rightarrow> 's"
  dumps :: "'s \<Rightarrow> string"

text \<open>A style object as a styler returns it: its methods and its state.\<close>

type_synonym 's styler = "int \<Rightarrow> int \<Rightarrow> 's iStyle \<times> 's"

text \<open>One call of a primitive, with its arguments.\<close>

datatype call =
  Place_node pos int string
| Place_left_hline pos pos int
| Place_right_hline pos pos int
| Place_vline_arc pos pos int
| Place_vline_node pos pos int
| Place_left_arc pos int
| Place_right_arc pos int
| Place_label pos pos string

text \<open>The backend that only writes down the calls it receives, in order.\<close>

definition recorder :: "call list iStyle" where
  "recorder =
     \<lparr> place_node = (\<lambda>xy c l s. s @ [Place_node xy c l]),
       place_left_hline = (\<lambda>a b c s. s @ [Place_left_hline a b c]),
       place_right_hline = (\<lambda>a b c s. s @ [Place_right_hline a b c]),
       place_vline_arc = (\<lambda>a b c s. s @ [Place_vline_arc a b c]),
       place_vline_node = (\<lambda>a b c s. s @ [Place_vline_node a b c]),
       place_left_arc = (\<lambda>xy c s. s @ [Place_left_arc xy c]),
       place_right_arc = (\<lambda>xy c s. s @ [Place_right_arc xy c]),
       place_label = (\<lambda>a b l s. s @ [Place_label a b l]),
       dumps = (\<lambda>s. []) \<rparr>"

text \<open>Performing recorded calls on a style object.\<close>

fun perform :: "'s iStyle \<Rightarrow> call \<Rightarrow> 's \<Rightarrow> 's" where
  "perform st (Place_node xy c l) s = place_node st xy c l s"
| "perform st (Place_left_hline a b c) s = place_left_hline st a b c s"
| "perform st (Place_right_hline a b c) s = place_right_hline st a b c s"
| "perform st (Place_vline_arc a b c) s = place_vline_arc st a b c s"
| "perform st (Place_vline_node a b c) s = place_vline_node st a b c s"
| "perform st (Place_left_arc xy c) s = place_left_arc st xy c s"
| "perform st (Place_right_arc xy c) s = place_right_arc st xy c s"
| "perform st (Place_label a b l) s = place_label st a b l s"

definition replay :: "'s iStyle \<Rightarrow> call list \<Rightarrow> 's \<Rightarrow> 's" where
  "replay st cs s = foldl (\<lambda>s c. perform st c s) s cs"

section \<open>\<open>render\<close>\<close>

text \<open>The four local variables of the row loop of \<open>render\<close>.\<close>

record scan =
  last_col :: int
  arcs :: "AbstractColumn list"
  nodepos :: pos
  node_pos :: int

definition init_scan :: scan where
  "init_scan = \<lparr> last_col = 0, arcs = [], nodepos = (0, 0), node_pos = 1 \<rparr>"

text \<open>
  The arguments \<open>(col.column, col.start_row.row)\<close> and
  \<open>col.start_row.columns[col.column].color\<close> of both vertical-line calls.
\<close>

definition track_origin :: "AbstractColumn \<Rightarrow> error + (pos \<times> int)" where
  "track_origin col =
     (case start_row col of
        None \<Rightarrow> Inl AttributeError
      | Some sr \<Rightarrow>
          (case columns_get sr (column col) of
             Inl e \<Rightarrow> Inl e
           | Inr c \<Rightarrow> Inr ((column col, row sr), color c)))"

text \<open>\<open>if col.is_last: style.place_vline_arc(...)\<close>, the same in both arc branches.\<close>

definition vline_arc_part ::
  "'s iStyle \<Rightarrow> AbstractRow \<Rightarrow> AbstractColumn \<Rightarrow> 's \<Rightarrow> error + 's" where
  "vline_arc_part st r col s =
     (if is_last col
      then (case track_origin col of
              Inl e \<Rightarrow> Inl e
            | Inr (start, c) \<Rightarrow> Inr (place_vline_arc st start (column col, row r) c s))
      else Inr s)"

text \<open>The body of \<open>if col.is_node:\<close> (lines 36 to 45).\<close>

definition node_part ::
  "'s iStyle \<Rightarrow> AbstractRow \<Rightarrow> AbstractColumn \<Rightarrow> scan \<times> 's \<Rightarrow> scan \<times> 's" where
  "node_part st r col = (\<lambda>(sc, s).
     let curpos = (column col, row r);
         s1 = place_node st curpos (color col) (label r) s
     in if length (arcs sc) \<noteq> 0
        then (sc\<lparr>nodepos := curpos, arcs := [] @ [col], node_pos := 0\<rparr>,
              place_left_hline st (column (hd (arcs sc)), row r) curpos
                (color (hd (arcs sc))) s1)
        else (sc\<lparr>nodepos := curpos, arcs := arcs sc @ [col], node_pos := 0\<rparr>, s1))"

text \<open>The body of \<open>if col.is_input:\<close> (lines 48 to 72).\<close>

definition input_part ::
  "'s iStyle \<Rightarrow> AbstractRow \<Rightarrow> AbstractColumn \<Rightarrow> scan \<times> 's \<Rightarrow> error + scan \<times> 's" where
  "input_part st r col = (\<lambda>(sc, s).
     let curpos = (column col, row r)
     in if node_pos sc < 0
        then (case vline_arc_part st r col (place_left_arc st curpos (color col) s) of
                Inl e \<Rightarrow> Inl e
              | Inr s' \<Rightarrow> Inr (sc\<lparr>arcs := arcs sc @ [col]\<rparr>, s'))
        else if node_pos sc = 0
        then (case track_origin col of
                Inl e \<Rightarrow> Inl e
              | Inr (start, c) \<Rightarrow> Inr (sc, place_vline_node st start curpos c s))
        else (case vline_arc_part st r col (place_right_arc st curpos (color col) s) of
                Inl e \<Rightarrow> Inl e
              | Inr s' \<Rightarrow> Inr (sc\<lparr>arcs := arcs sc @ [col]\<rparr>, s')))"

text \<open>One turn of \<open>for col in row\<close>.\<close>

definition render_col ::
  "'s iStyle \<Rightarrow> AbstractRow \<Rightarrow> AbstractColumn \<Rightarrow> scan \<times> 's \<Rightarrow> error + scan \<times> 's" where
  "render_col st r col = (\<lambda>(sc, s).
     let a = (sc\<lparr>last_col := column col\<rparr>, s);
         b = (if is_node col then node_part st r col a else a)
     in case (if is_input col then input_part st r col b else Inr b) of
          Inl e \<Rightarrow> Inl e
        | Inr (sc', s') \<Rightarrow> Inr (if is_node col then sc'\<lparr>node_pos := - 1\<rparr> else sc', s'))"

fun render_cols ::
  "'s iStyle \<Rightarrow> AbstractRow \<Rightarrow> AbstractColumn list \<Rightarrow> scan \<times> 's \<Rightarrow> error + scan \<times> 's" where
  "render_cols st r [] a = Inr a"
| "render_cols st r (col # cols) a =
     (case render_col st r col a of
        Inl e \<Rightarrow> Inl e
      | Inr b \<Rightarrow> render_cols st r cols b)"

text \<open>What follows the column loop: the right horizontal line and the label.\<close>

definition row_end :: "'s iStyle \<Rightarrow> AbstractRow \<Rightarrow> scan \<times> 's \<Rightarrow> 's" where
  "row_end st r = (\<lambda>(sc, s).
     let s1 = (if length (arcs sc) \<ge> 2
               then place_right_hline st (column (hd (arcs sc)), row r)
                      (column (last (arcs sc)), row r) (color (last (arcs sc))) s
               else s)
     in place_label st (nodepos sc) (last_col sc + 1, row r) (label r) s1)"

text \<open>One turn of \<open>for row in plot.rows\<close>.\<close>

definition render_row :: "'s iStyle \<Rightarrow> AbstractRow \<Rightarrow> 's \<Rightarrow> error + 's" where
  "render_row st r s =
     (case render_cols st r (row_iter r) (init_scan, s) of
        Inl e \<Rightarrow> Inl e
      | Inr a \<Rightarrow> Inr (row_end st r a))"

fun render_rows :: "'s iStyle \<Rightarrow> AbstractRow list \<Rightarrow> 's \<Rightarrow> error + 's" where
  "render_rows st [] s = Inr s"
| "render_rows st (r # rs) s =
     (case render_row st r s of
        Inl e \<Rightarrow> Inl e
      | Inr s' \<Rightarrow> render_rows st rs s')"

definition render :: "AbstractPlot \<Rightarrow> 's styler \<Rightarrow> error + string" where
  "render plot styler =
     (let (st, s0) = styler (colors plot) (- columns_start plot)
      in case render_rows st (rows plot) s0 of
           Inl e \<Rightarrow> Inl e
         | Inr s \<Rightarrow> Inr (dumps st s))"

text \<open>The calls that reach the backend while \<open>render\<close> runs, in order.\<close>

definition row_calls :: "AbstractRow \<Rightarrow> error + call list" where
  "row_calls r = render_row recorder r []"

definition render_calls :: "AbstractPlot \<Rightarrow> error + call list" where
  "render_calls plot = render_rows recorder (rows plot) []"

section \<open>Kinds of calls\<close>

fun is_arc :: "call \<Rightarrow> bool" where
  "is_arc (Place_left_arc xy c) = True"
| "is_arc (Place_right_arc xy c) = True"
| "is_arc other = False"

fun is_hline :: "call \<Rightarrow> bool" where
  "is_hline (Place_left_hline a b c) = True"
| "is_hline (Place_right_hline a b c) = True"
| "is_hline other = False"

fun is_right_hline :: "call \<Rightarrow> bool" where
  "is_right_hline (Place_right_hline a b c) = True"
| "is_right_hline other = False"

fun is_vline :: "call \<Rightarrow> bool" where
  "is_vline (Place_vline_arc a b c) = True"
| "is_vline (Place_vline_node a b c) = True"
| "is_vline other = False"

fun is_label :: "call \<Rightarrow> bool" where
  "is_label (Place_label a b l) = True"
| "is_label other = False"

text \<open>The Node cell of a row: the last one the scan meets, should there be several.\<close>

definition node_cell :: "AbstractRow \<Rightarrow> AbstractColumn" where
  "node_cell r = last (filter is_node (row_iter r))"

section \<open>Example plots\<close>

text \<open>
  Three rows \<open>A\<close>, \<open>B\<close>, \<open>C\<close> with tracks from \<open>A\<close> and from \<open>B\<close> that both end in row
  \<open>C\<close>, and the node of \<open>C\<close> to the right of both: row \<open>C\<close> holds two final Input cells
  before its Node cell. \<open>render\<close> never reads \<open>start_row\<close> of a cell that is no Input
  cell; it is \<open>None\<close> there.
\<close>

definition cell_A :: AbstractColumn where
  "cell_A = AbstractColumn 0 0 True False False None"

definition row_A :: AbstractRow where
  "row_A = AbstractRow 0 ''A'' [cell_A]"

definition cell_B :: AbstractColumn where
  "cell_B = AbstractColumn 1 1 True False False None"

definition row_B :: AbstractRow where
  "row_B = AbstractRow 1 ''B'' [cell_B]"

definition input_A :: AbstractColumn where
  "input_A = AbstractColumn 0 0 False True True (Some row_A)"

definition input_B :: AbstractColumn where
  "input_B = AbstractColumn 1 1 False True True (Some row_B)"

definition cell_C2 :: AbstractColumn where
  "cell_C2 = AbstractColumn 2 2 True False False None"

definition row_C2 :: AbstractRow where
  "row_C2 = AbstractRow 2 ''C'' [input_A, input_B, cell_C2]"

definition plot_C2 :: AbstractPlot where
  "plot_C2 = \<lparr> rows = [row_A, row_B, row_C2], colors = 3, columns_start = 0 \<rparr>"

text \<open>
  The plot of the graph with the edges from \<open>A\<close> to \<open>C\<close> and from \<open>B\<close> to \<open>C\<close>, in the
  order \<open>A\<close>, \<open>B\<close>, \<open>C\<close>, as the builder of the next section makes it with the lowest
  free column (lemma \<open>ABC_as_built\<close>). The Input cells of row \<open>C\<close> close both tracks
  before the node of \<open>C\<close> gets its column, so the node takes column 0: the cell there is
  the Input cell of the track of \<open>A\<close> and the Node cell at once, and the Input cell of the
  track of \<open>B\<close> comes after it.
\<close>

definition cell_C0 :: AbstractColumn where
  "cell_C0 = AbstractColumn 0 0 True True True (Some row_A)"

definition row_C0 :: AbstractRow where
  "row_C0 = AbstractRow 2 ''C'' [input_B, cell_C0]"

definition plot_ABC :: AbstractPlot where
  "plot_ABC = \<lparr> rows = [row_A, row_B, row_C0], colors = 2, columns_start = 0 \<rparr>"

text \<open>
  Three rows again, with the node of \<open>C\<close> between the two tracks: one Input cell before
  the Node cell of row \<open>C\<close>, one after it. Here \<open>B\<close> sits in column 2.
\<close>

definition cell_B2 :: AbstractColumn where
  "cell_B2 = AbstractColumn 2 1 True False False None"

definition row_B2 :: AbstractRow where
  "row_B2 = AbstractRow 1 ''B'' [cell_B2]"

definition input_B2 :: AbstractColumn where
  "input_B2 = AbstractColumn 2 1 False True True (Some row_B2)"

definition cell_C1 :: AbstractColumn where
  "cell_C1 = AbstractColumn 1 2 True False False None"

definition row_C1 :: AbstractRow where
  "row_C1 = AbstractRow 2 ''C'' [input_A, cell_C1, input_B2]"

definition plot_AB2C :: AbstractPlot where
  "plot_AB2C = \<lparr> rows = [row_A, row_B2, row_C1], colors = 3, columns_start = 0 \<rparr>"

text \<open>
  The chain of four nodes \<open>A\<close>, \<open>B\<close>, \<open>C\<close>, \<open>D\<close> of the spec (section 8): every row after
  the first has one cell, which is the Node cell and the Input cell of the track from the
  row above at once.
\<close>

definition chain_B :: AbstractColumn where
  "chain_B = AbstractColumn 0 0 True True True (Some row_A)"

definition chain_row_B :: AbstractRow where
  "chain_row_B = AbstractRow 1 ''B'' [chain_B]"

definition chain_C :: AbstractColumn where
  "chain_C = AbstractColumn 0 0 True True True (Some chain_row_B)"

definition chain_row_C :: AbstractRow where
  "chain_row_C = AbstractRow 2 ''C'' [chain_C]"

definition chain_D :: AbstractColumn where
  "chain_D = AbstractColumn 0 0 True True True (Some chain_row_C)"

definition chain_row_D :: AbstractRow where
  "chain_row_D = AbstractRow 3 ''D'' [chain_D]"

definition plot_chain :: AbstractPlot where
  "plot_chain =
     \<lparr> rows = [row_A, chain_row_B, chain_row_C, chain_row_D], colors = 1, columns_start = 0 \<rparr>"

section \<open>Building the plot\<close>

text \<open>
  A networkx graph as \<open>make_abstract_plot\<close> reads it: \<open>G.nodes[nd]\<close> (of which the
  attribute \<open>"label"\<close> alone is read), \<open>G.pred[nd]\<close> and \<open>G.succ[nd]\<close>, in the order in
  which Python iterates them. All three raise \<open>KeyError\<close> for an \<open>nd\<close> that is no node of
  \<open>G\<close>. Nodes are taken to be strings, so that \<open>f"{nd}"\<close> is the node itself.
\<close>

type_synonym node = string

record node_view =
  label_attr :: "string option"
  pred :: "node list"
  succ :: "node list"

type_synonym DiGraph = "node \<Rightarrow> node_view option"

text \<open>
  Modelled from the spec: the track of section 3, "a column index currently reserved for
  an edge that has not yet been fully consumed", with the colour it was given, the row
  where it was opened and the number of successors that have not consumed it yet. The
  class is part of \<open>dagviz/abstract.py\<close>.
\<close>

record track =
  t_column :: int
  t_color :: int
  t_origin :: AbstractRow
  t_remaining :: int

text \<open>
  Modelled from the spec: the \<open>AbstractPlot\<close> of \<open>dagviz/abstract.py\<close> while it is built.
  Section 3: rows, "the minimum column index ever used" and "the maximum number of
  simultaneously open tracks"; section 9: "a mapping ... to open-track metadata, scoped
  entirely to one Plot-build call". The open tracks are filed under the node they start at.
\<close>

record plot_state =
  p_rows :: "AbstractRow list"
  p_tracks :: "(node \<times> track) list"
  p_colors :: int
  p_start :: int

definition empty_plot :: plot_state where
  "empty_plot = \<lparr> p_rows = [], p_tracks = [], p_colors = 0, p_start = 0 \<rparr>"

text \<open>
  Modelled from the spec: which column and which colour a new track gets. Section 9 leaves
  both open ("not fully determinable", "underspecified"), so they are parameters here:
  the column as a function of the columns of the open tracks and of the row as it stands,
  the colour as a function of the column and the number of open tracks.
\<close>

record policy =
  pick_column :: "int list \<Rightarrow> AbstractRow \<Rightarrow> int"
  pick_color :: "int \<Rightarrow> nat \<Rightarrow> int"

text \<open>
  The default of section 9, "lowest free index": the lowest column from 0 on that no open
  track occupies, with the column as the colour.
\<close>

fun first_free :: "int list \<Rightarrow> nat \<Rightarrow> int \<Rightarrow> int" where
  "first_free used 0 c = c"
| "first_free used (Suc n) c = (if c \<in> set used then first_free used n (c + 1) else c)"

definition lowest_free :: policy where
  "lowest_free =
     \<lparr> pick_column = (\<lambda>used r. first_free used (length used) 0),
       pick_color = (\<lambda>c n. c) \<rparr>"

text \<open>\<open>row.columns[cell.column] = cell\<close>\<close>

definition columns_put :: "AbstractColumn \<Rightarrow> AbstractRow \<Rightarrow> AbstractRow" where
  "columns_put cell r =
     AbstractRow (row r) (label r)
       (filter (\<lambda>x. column x \<noteq> column cell) (columns r) @ [cell])"

text \<open>
  Modelled from the spec: \<open>AbstractPlot.add_row\<close> of \<open>dagviz/abstract.py\<close>. Section 3: a
  row has its "row index (position in the sequence), a display label", and no cell yet.
\<close>

definition add_row :: "string \<Rightarrow> plot_state \<Rightarrow> AbstractRow" where
  "add_row l p = AbstractRow (int (length (p_rows p))) l []"

text \<open>
  Modelled from the spec: \<open>AbstractRow.add_input\<close> of \<open>dagviz/abstract.py\<close>. Section 4.1,
  step 2: "locate that predecessor's open track, decrement its remaining successor count,
  emit an Input cell in the current row at the track's column, with
  \<open>is_final = (remaining == 0)\<close>. If \<open>is_final\<close>, close the track"; and "the builder fails
  with an \<open>InvalidOrderingError\<close> if a node's predecessor has not yet had its track opened".
\<close>

definition add_input ::
  "node \<Rightarrow> AbstractRow \<times> plot_state \<Rightarrow> error + AbstractRow \<times> plot_state" where
  "add_input nd = (\<lambda>(r, p).
     case map_of (p_tracks p) nd of
       None \<Rightarrow> Inl InvalidOrderingError
     | Some t \<Rightarrow>
         let remaining = t_remaining t - 1;
             is_final = (remaining = 0);
             cell = AbstractColumn (t_column t) (t_color t) False True is_final
                      (Some (t_origin t))
         in Inr (columns_put cell r,
                 p\<lparr>p_tracks :=
                     (if is_final then AList.delete nd (p_tracks p)
                      else AList.update nd (t\<lparr>t_remaining := remaining\<rparr>) (p_tracks p))\<rparr>))"

text \<open>
  Modelled from the spec: \<open>AbstractRow.add_node\<close> of \<open>dagviz/abstract.py\<close>. Section 4.1,
  steps 1 and 3: a column and a colour for the node, "a Node cell for this row at that
  column", a track with the node's successor count, none "if the node has zero
  successors". A Node cell in the column of an Input cell of the row is that cell with
  \<open>is_node\<close> set as well (section 4.2, "exactly the node's own column").
\<close>

definition add_node ::
  "policy \<Rightarrow> node \<Rightarrow> int \<Rightarrow> AbstractRow \<times> plot_state \<Rightarrow> AbstractRow \<times> plot_state" where
  "add_node pol nd successors = (\<lambda>(r, p).
     let c = pick_column pol (map (\<lambda>(n, t). t_column t) (p_tracks p)) r;
         k = pick_color pol c (length (p_tracks p));
         cell = (case find (\<lambda>x. column x = c) (columns r) of
                   None \<Rightarrow> AbstractColumn c k True False False None
                 | Some x \<Rightarrow> AbstractColumn c k True (is_input x) (is_last x) (start_row x));
         r' = columns_put cell r;
         tracks = (if successors > 0
                   then AList.update nd
                          \<lparr> t_column = c, t_color = k, t_origin = r', t_remaining = successors \<rparr>
                          (p_tracks p)
                   else p_tracks p)
     in (r', \<lparr> p_rows = p_rows p @ [r'], p_tracks = tracks,
               p_colors = max (p_colors p) (int (length tracks)),
               p_start = min (p_start p) c \<rparr>))"

text \<open>\<open>for pred in G.pred[nd]: row.add_input(pred)\<close>\<close>

fun add_inputs ::
  "node list \<Rightarrow> AbstractRow \<times> plot_state \<Rightarrow> error + AbstractRow \<times> plot_state" where
  "add_inputs [] a = Inr a"
| "add_inputs (q # qs) a =
     (case add_input q a of
        Inl e \<Rightarrow> Inl e
      | Inr b \<Rightarrow> add_inputs qs b)"

text \<open>One turn of \<open>for nd in sequence\<close> in \<open>make_abstract_plot\<close>.\<close>

definition plot_node :: "policy \<Rightarrow> DiGraph \<Rightarrow> node \<Rightarrow> plot_state \<Rightarrow> error + plot_state" where
  "plot_node pol G nd p =
     (case G nd of
        None \<Rightarrow> Inl KeyError
      | Some v \<Rightarrow>
          let r = add_row (case label_attr v of None \<Rightarrow> nd | Some l \<Rightarrow> l) p
          in case add_inputs (pred v) (r, p) of
               Inl e \<Rightarrow> Inl e
             | Inr a \<Rightarrow> Inr (snd (add_node pol nd (int (length (succ v))) a)))"

fun plot_nodes :: "policy \<Rightarrow> DiGraph \<Rightarrow> node list \<Rightarrow> plot_state \<Rightarrow> error + plot_state" where
  "plot_nodes pol G [] p = Inr p"
| "plot_nodes pol G (nd # nds) p =
     (case plot_node pol G nd p of
        Inl e \<Rightarrow> Inl e
      | Inr p' \<Rightarrow> plot_nodes pol G nds p')"

text \<open>The argument \<open>order\<close>: a sequence of nodes, or a function that makes one.\<close>

datatype order = Sequence "node list" | Callable "DiGraph \<Rightarrow> node list"

text \<open>\<open>if isinstance(order, Sequence): sequence = order else: sequence = order(G)\<close>\<close>

definition sequence_of :: "DiGraph \<Rightarrow> order \<Rightarrow> node list" where
  "sequence_of G order = (case order of Sequence s \<Rightarrow> s | Callable f \<Rightarrow> f G)"

definition make_abstract_plot :: "policy \<Rightarrow> DiGraph \<Rightarrow> order \<Rightarrow> error + AbstractPlot" where
  "make_abstract_plot pol G order =
     (let sequence = sequence_of G order
      in case plot_nodes pol G sequence empty_plot of
           Inl e \<Rightarrow> Inl e
         | Inr p \<Rightarrow> Inr \<lparr> rows = p_rows p, colors = p_colors p, columns_start = p_start p \<rparr>)"

text \<open>
  \<open>render(make_abstract_plot(G), style)\<close>: no order is passed, so \<open>make_abstract_plot\<close>
  takes its default, \<open>dag.topological_sort\<close> of networkx, which is an argument here.
\<close>

definition render_svg ::
  "policy \<Rightarrow> (DiGraph \<Rightarrow> node list) \<Rightarrow> DiGraph \<Rightarrow> 's styler \<Rightarrow> error + string" where
  "render_svg pol topological_sort G style =
     (case make_abstract_plot pol G (Callable topological_sort) of
        Inl e \<Rightarrow> Inl e
      | Inr plot \<Rightarrow> render plot style)"

text \<open>The nodes that have an open track.\<close>

definition keys :: "plot_state \<Rightarrow> node set" where
  "keys p = fst ` set (p_tracks p)"

text \<open>The graph with the edges from \<open>A\<close> to \<open>C\<close> and from \<open>B\<close> to \<open>C\<close>.\<close>

definition graph_ABC :: DiGraph where
  "graph_ABC = map_of
     [(''A'', \<lparr> label_attr = None, pred = [], succ = [''C''] \<rparr>),
      (''B'', \<lparr> label_attr = None, pred = [], succ = [''C''] \<rparr>),
      (''C'', \<lparr> label_attr = None, pred = [''A'', ''B''], succ = [] \<rparr>)]"

text \<open>
  A linear chain graph: the nodes of a list, each with the node before it in the list as
  its one predecessor and the node after it as its one successor.
\<close>

fun chain_views :: "node option \<Rightarrow> node list \<Rightarrow> (node \<times> node_view) list" where
  "chain_views before [] = []"
| "chain_views before (nd # nds) =
     (nd, \<lparr> label_attr = None,
            pred = (case before of None \<Rightarrow> [] | Some q \<Rightarrow> [q]),
            succ = (case nds of [] \<Rightarrow> [] | s # rest \<Rightarrow> [s]) \<rparr>) #
       chain_views (Some nd) nds"

definition chain_graph :: "node list \<Rightarrow> DiGraph" where
  "chain_graph nds = map_of (chain_views None nds)"

text \<open>
  The rows of a chain drawn in one column: the row of the first node holds its Node cell,
  every later row one cell, in column 0, which is the Node cell and the final Input cell of
  the track from the row above at once. The rows are numbered from \<open>i\<close> on.
\<close>

fun chain_rows :: "AbstractRow option \<Rightarrow> int \<Rightarrow> node list \<Rightarrow> AbstractRow list" where
  "chain_rows prev i [] = []"
| "chain_rows prev i (nd # nds) =
     (let r = AbstractRow i nd
                [case prev of
                   None \<Rightarrow> AbstractColumn 0 0 True False False None
                 | Some ra \<Rightarrow> AbstractColumn 0 0 True True True (Some ra)]
      in r # chain_rows (Some r) (i + 1) nds)"

text \<open>
  A row \<open>r\<close> of such a chain after the first, with the row \<open>ra\<close> above it: one cell, whose
  track began in \<open>ra\<close>, the row with the index before and one cell in column 0.
\<close>

definition chain_row_shape :: "AbstractRow \<Rightarrow> AbstractRow \<Rightarrow> int \<Rightarrow> node \<Rightarrow> bool" where
  "chain_row_shape ra r i nd =
     (r = AbstractRow i nd [AbstractColumn 0 0 True True True (Some ra)] \<and>
      row ra = i - 1 \<and> (\<exists>c. columns ra = [c] \<and> column c = 0 \<and> color c = 0))"

section \<open>The colour palette\<close>

text \<open>
  \<open>dagviz/style/colors.py\<close> computes with Python floats. A float is modelled by the
  rational number it stands for. The result of an arithmetic operation on floats is the
  exact result, rounded to a float: the rounding is the parameter \<open>rnd\<close> of everything
  below. Literals such as \<open>0.4\<close> are rounded as well. Comparisons are exact.
\<close>

type_synonym rounding = "rat \<Rightarrow> rat"

text \<open>\<open>int(x)\<close> of a float: the integer towards zero.\<close>

definition py_int :: "rat \<Rightarrow> int" where
  "py_int x = (if 0 \<le> x then \<lfloor>x\<rfloor> else \<lceil>x\<rceil>)"

text \<open>
  \<open>x % 1.0\<close> of a float, as CPython computes it: \<open>fmod(x, 1.0)\<close>, which is exact and has
  the sign of \<open>x\<close>, and, were that negative, \<open>1.0\<close> added to it.
\<close>

definition mod_one :: "rounding \<Rightarrow> rat \<Rightarrow> rat" where
  "mod_one rnd x =
     (let m = x - of_int (py_int x)
      in if m < 0 then rnd (m + 1) else m)"

text \<open>
  \<open>colorsys\<close> of the Python standard library, from which \<open>palette\<close> imports
  \<open>hls_to_rgb\<close>: the constants \<open>ONE_THIRD = 1.0/3.0\<close>, \<open>ONE_SIXTH = 1.0/6.0\<close>,
  \<open>TWO_THIRD = 2.0/3.0\<close> and the functions \<open>_v\<close> (\<open>hls_v\<close> here) and
  \<open>hls_to_rgb\<close>.
\<close>

definition ONE_THIRD :: "rounding \<Rightarrow> rat" where
  "ONE_THIRD rnd = rnd (1 / 3)"

definition ONE_SIXTH :: "rounding \<Rightarrow> rat" where
  "ONE_SIXTH rnd = rnd (1 / 6)"

definition TWO_THIRD :: "rounding \<Rightarrow> rat" where
  "TWO_THIRD rnd = rnd (2 / 3)"

definition hls_v :: "rounding \<Rightarrow> rat \<Rightarrow> rat \<Rightarrow> rat \<Rightarrow> rat" where
  "hls_v rnd m1 m2 hue0 =
     (let hue = mod_one rnd hue0
      in if hue < ONE_SIXTH rnd
         then rnd (m1 + rnd (rnd (rnd (m2 - m1) * hue) * 6))
         else if hue < 1 / 2
         then m2
         else if hue < TWO_THIRD rnd
         then rnd (m1 + rnd (rnd (rnd (m2 - m1) * rnd (TWO_THIRD rnd - hue)) * 6))
         else m1)"

definition hls_to_rgb :: "rounding \<Rightarrow> rat \<Rightarrow> rat \<Rightarrow> rat \<Rightarrow> rat \<times> rat \<times> rat" where
  "hls_to_rgb rnd h l s =
     (if s = 0 then (l, l, l)
      else
        let m2 = (if l \<le> 1 / 2 then rnd (l * rnd (1 + s))
                  else rnd (rnd (l + s) - rnd (l * s)));
            m1 = rnd (rnd (2 * l) - m2)
        in (hls_v rnd m1 m2 (rnd (h + ONE_THIRD rnd)),
            hls_v rnd m1 m2 h,
            hls_v rnd m1 m2 (rnd (h - ONE_THIRD rnd))))"

text \<open>
  \<open>f"{n:02x}"\<close> of an integer: lower case hexadecimal digits, filled with zeros to two
  characters, the sign of a negative number counting as one of them.
\<close>

definition hex_digit :: "nat \<Rightarrow> char" where
  "hex_digit d = ''0123456789abcdef'' ! d"

function hex :: "nat \<Rightarrow> string" where
  "hex n = (if n < 16 then [hex_digit n] else hex (n div 16) @ [hex_digit (n mod 16)])"
  by pat_completeness auto
termination
  by (relation "measure (\<lambda>n. n)") auto

definition zfill :: "nat \<Rightarrow> string \<Rightarrow> string" where
  "zfill w s = replicate (w - length s) CHR ''0'' @ s"

definition format_02x :: "int \<Rightarrow> string" where
  "format_02x n =
     (if n < 0 then CHR ''-'' # zfill 1 (hex (nat (- n)))
      else zfill 2 (hex (nat n)))"

text \<open>\<open>f"#{int(r * 256):02x}{int(g * 256):02x}{int(b * 256):02x}"\<close>\<close>

definition color_string :: "rounding \<Rightarrow> rat \<times> rat \<times> rat \<Rightarrow> string" where
  "color_string rnd = (\<lambda>(r, g, b).
     CHR ''#'' # format_02x (py_int (rnd (r * 256))) @ format_02x (py_int (rnd (g * 256))) @
       format_02x (py_int (rnd (b * 256))))"

text \<open>
  The loop of \<open>palette\<close>, with the number of turns left and the list \<open>colors\<close>
  (\<open>out\<close> here). The floats \<open>hue\<close> and
  \<open>lightness\<close> only ever hold whole numbers from 0 to 7, on which \<open>+ 1\<close>, \<open>% 7\<close> and
  \<open>% 3\<close> are exact: they are integers here. \<open>saturation\<close> is \<open>0.5\<close> throughout.
\<close>

fun palette_loop :: "rounding \<Rightarrow> nat \<Rightarrow> int \<Rightarrow> int \<Rightarrow> string list \<Rightarrow> string list" where
  "palette_loop rnd 0 hue lightness out = out"
| "palette_loop rnd (Suc i) hue lightness out =
     (let rgb = hls_to_rgb rnd (rnd (of_int hue / 6))
                  (rnd (rnd (4 / 10) + rnd (rnd (of_int lightness / 2) * rnd (3 / 10))))
                  (1 / 2);
          hue' = (hue + 1) mod 7;
          lightness' = (if hue' = 0 then (lightness + 1) mod 3 else lightness)
      in palette_loop rnd i hue' lightness' (out @ [color_string rnd rgb]))"

text \<open>\<open>range(ncolors)\<close> has no element when \<open>ncolors\<close> is negative.\<close>

definition palette :: "rounding \<Rightarrow> int \<Rightarrow> string list" where
  "palette rnd ncolors = palette_loop rnd (nat ncolors) 0 1 []"

text \<open>\<open>#\<close> and six lower case hexadecimal digits.\<close>

definition is_hex_color :: "string \<Rightarrow> bool" where
  "is_hex_color s =
     (case s of
        [] \<Rightarrow> False
      | c # ds \<Rightarrow> c = CHR ''#'' \<and> length ds = 6 \<and>
                   list_all (\<lambda>d. d \<in> set ''0123456789abcdef'') ds)"

text \<open>
  What the theorems ask of the rounding: it keeps the sign, and up to 1024 in absolute
  value it is off by at most a 1024th of the exact result and a 2 to the 20th part of one.
  Rounding to the nearest IEEE double is far better than that (a \<open>2 ^ 53\<close>rd of the
  result, or \<open>2 ^ -1075\<close> near zero); so is no rounding at all, \<open>rnd x = x\<close>.
\<close>

definition accurate :: "rounding \<Rightarrow> bool" where
  "accurate rnd =
     (\<forall>x. (0 \<le> x \<longrightarrow> 0 \<le> rnd x) \<and> (x \<le> 0 \<longrightarrow> rnd x \<le> 0) \<and>
          (\<bar>x\<bar> \<le> 1024 \<longrightarrow> \<bar>rnd x - x\<bar> \<le> \<bar>x\<bar> / 1024 + 1 / 1048576))"

text \<open>A colour component that \<open>int(c * 256)\<close> turns into a number from 0 to 255.\<close>

definition component :: "rat \<Rightarrow> bool" where
  "component c = (0 \<le> c \<and> c \<le> 99 / 100)"

section \<open>Replaying the recorded calls\<close>

lemma replay_Nil: "replay st [] s = s"
  by (simp add: replay_def)

lemma replay_Cons: "replay st (c # cs) s = replay st cs (perform st c s)"
  by (simp add: replay_def)

lemma replay_append: "replay st (cs @ ds) s = replay st ds (replay st cs s)"
  by (simp add: replay_def)

lemma perform_recorder: "perform recorder c l = l @ [c]"
  by (cases c) (simp_all add: recorder_def)

lemma replay_recorder: "replay recorder cs l = l @ cs"
  by (induction cs arbitrary: l) (simp_all add: replay_Nil replay_Cons perform_recorder)

lemma vline_arc_part_replay:
  "vline_arc_part st r col s =
     (case vline_arc_part recorder r col [] of
        Inl e \<Rightarrow> Inl e
      | Inr cs \<Rightarrow> Inr (replay st cs s))"
  by (simp add: vline_arc_part_def recorder_def replay_def split: sum.splits prod.splits)

lemma node_part_replay:
  "node_part st r col (sc, s) =
     (case node_part recorder r col (sc, []) of (sc', cs) \<Rightarrow> (sc', replay st cs s))"
  by (simp add: node_part_def recorder_def replay_def Let_def)

lemma input_part_replay:
  "input_part st r col (sc, s) =
     (case input_part recorder r col (sc, []) of
        Inl e \<Rightarrow> Inl e
      | Inr (sc', cs) \<Rightarrow> Inr (sc', replay st cs s))"
  apply (simp add: input_part_def Let_def)
  apply (simp add: vline_arc_part_def recorder_def replay_def split: sum.splits prod.splits)
  done

lemma render_col_replay:
  "render_col st r col (sc, s) =
     (case render_col recorder r col (sc, []) of
        Inl e \<Rightarrow> Inl e
      | Inr (sc', cs) \<Rightarrow> Inr (sc', replay st cs s))"
proof -
  obtain sc1 cs1 where n: "node_part recorder r col (sc\<lparr>last_col := column col\<rparr>, []) = (sc1, cs1)"
    by (cases "node_part recorder r col (sc\<lparr>last_col := column col\<rparr>, [])")
  have n': "node_part st r col (sc\<lparr>last_col := column col\<rparr>, s) = (sc1, replay st cs1 s)"
    using node_part_replay [of st r col "sc\<lparr>last_col := column col\<rparr>" s] n by simp
  have i: "input_part st r col (sc2, replay st cs2 s) =
      (case input_part recorder r col (sc2, cs2) of
         Inl e \<Rightarrow> Inl e
       | Inr (sc', cs) \<Rightarrow> Inr (sc', replay st cs s))" for sc2 cs2
    using input_part_replay [of st r col sc2 "replay st cs2 s"]
          input_part_replay [of recorder r col sc2 cs2]
    by (auto simp: replay_recorder replay_append split: sum.splits)
  show ?thesis
    using n n' i [of sc1 cs1] i [of "sc\<lparr>last_col := column col\<rparr>" "[]"]
    by (auto simp: render_col_def Let_def replay_Nil split: sum.splits)
qed

lemma render_col_recorder:
  "render_col recorder r col (sc, l) =
     (case render_col recorder r col (sc, []) of
        Inl e \<Rightarrow> Inl e
      | Inr (sc', cs) \<Rightarrow> Inr (sc', l @ cs))"
  using render_col_replay [of recorder r col sc l]
  by (simp add: replay_recorder split: sum.splits)

lemma render_cols_recorder:
  "render_cols recorder r cols (sc, l) =
     (case render_cols recorder r cols (sc, []) of
        Inl e \<Rightarrow> Inl e
      | Inr (sc', cs) \<Rightarrow> Inr (sc', l @ cs))"
proof (induction cols arbitrary: sc l)
  case Nil
  show ?case by simp
next
  case (Cons col cols)
  show ?case
  proof (cases "render_col recorder r col (sc, [])")
    case (Inl e)
    then show ?thesis using render_col_recorder [of r col sc l] by simp
  next
    case (Inr b)
    then obtain sc1 cs1 where b: "render_col recorder r col (sc, []) = Inr (sc1, cs1)"
      by (cases b) simp
    have 1: "render_col recorder r col (sc, l) = Inr (sc1, l @ cs1)"
      using render_col_recorder [of r col sc l] b by simp
    show ?thesis
      using 1 b Cons.IH [of sc1 "l @ cs1"] Cons.IH [of sc1 cs1]
      by (auto split: sum.splits)
  qed
qed

lemma render_cols_replay:
  "render_cols st r cols (sc, s) =
     (case render_cols recorder r cols (sc, []) of
        Inl e \<Rightarrow> Inl e
      | Inr (sc', cs) \<Rightarrow> Inr (sc', replay st cs s))"
proof (induction cols arbitrary: sc s)
  case Nil
  show ?case by (simp add: replay_Nil)
next
  case (Cons col cols)
  show ?case
  proof (cases "render_col recorder r col (sc, [])")
    case (Inl e)
    then show ?thesis using render_col_replay [of st r col sc s] by simp
  next
    case (Inr b)
    then obtain sc1 cs1 where b: "render_col recorder r col (sc, []) = Inr (sc1, cs1)"
      by (cases b) simp
    have 1: "render_col st r col (sc, s) = Inr (sc1, replay st cs1 s)"
      using render_col_replay [of st r col sc s] b by simp
    show ?thesis
      using 1 b Cons.IH [of sc1 "replay st cs1 s"] render_cols_recorder [of r cols sc1 cs1]
      by (auto simp: replay_append split: sum.splits)
  qed
qed

lemma row_end_replay:
  "row_end st r (sc, s) = replay st (row_end recorder r (sc, [])) s"
  by (simp add: row_end_def recorder_def replay_def Let_def)

lemma render_row_replay:
  "render_row st r s =
     (case render_row recorder r [] of
        Inl e \<Rightarrow> Inl e
      | Inr cs \<Rightarrow> Inr (replay st cs s))"
proof -
  have e: "row_end st r (sc, replay st cs s) = replay st (row_end recorder r (sc, cs)) s" for sc cs
    using row_end_replay [of st r sc "replay st cs s"] row_end_replay [of recorder r sc cs]
    by (simp add: replay_recorder replay_append)
  show ?thesis
    using render_cols_replay [of st r "row_iter r" init_scan s] e
    by (auto simp: render_row_def split: sum.splits)
qed

lemma render_rows_recorder:
  "render_rows recorder rs l =
     (case render_rows recorder rs [] of
        Inl e \<Rightarrow> Inl e
      | Inr cs \<Rightarrow> Inr (l @ cs))"
proof (induction rs arbitrary: l)
  case Nil
  show ?case by simp
next
  case (Cons r rs)
  show ?case
  proof (cases "render_row recorder r []")
    case (Inl e)
    then show ?thesis using render_row_replay [of recorder r l] by simp
  next
    case (Inr cs1)
    have 1: "render_row recorder r l = Inr (l @ cs1)"
      using render_row_replay [of recorder r l] Inr by (simp add: replay_recorder)
    show ?thesis
      using 1 Inr Cons.IH [of "l @ cs1"] Cons.IH [of cs1]
      by (auto split: sum.splits)
  qed
qed

lemma render_rows_replay:
  "render_rows st rs s =
     (case render_rows recorder rs [] of
        Inl e \<Rightarrow> Inl e
      | Inr cs \<Rightarrow> Inr (replay st cs s))"
proof (induction rs arbitrary: s)
  case Nil
  show ?case by (simp add: replay_Nil)
next
  case (Cons r rs)
  show ?case
  proof (cases "render_row recorder r []")
    case (Inl e)
    then show ?thesis using render_row_replay [of st r s] by simp
  next
    case (Inr cs1)
    have 1: "render_row st r s = Inr (replay st cs1 s)"
      using render_row_replay [of st r s] Inr by simp
    show ?thesis
      using 1 Inr Cons.IH [of "replay st cs1 s"] render_rows_recorder [of rs cs1]
      by (auto simp: replay_append split: sum.splits)
  qed
qed

section \<open>The column loop, cell by cell\<close>

lemmas render_col_defs =
  render_col_def node_part_def input_part_def vline_arc_part_def recorder_def Let_def

text \<open>What one turn of the column loop does to the local variables.\<close>

lemma render_col_scan:
  assumes "render_col st r col (sc, s) = Inr (sc', s')"
  shows "last_col sc' = column col"
    and "node_pos sc' = (if is_node col then - 1 else node_pos sc)"
    and "nodepos sc' = (if is_node col then (column col, row r) else nodepos sc)"
    and "arcs sc' = (if is_node col then [col]
                     else if is_input col \<and> node_pos sc \<noteq> 0 then arcs sc @ [col]
                     else arcs sc)"
  using assms
  by (auto simp: render_col_defs split: if_splits sum.splits prod.splits)

text \<open>The calls of one turn, cell by cell kind.\<close>

lemma render_col_arc_calls:
  assumes "is_input col" "\<not> is_node col" "node_pos sc \<noteq> 0"
      and "render_col recorder r col (sc, cs) = Inr (sc', cs')"
  shows "\<exists>vl. cs' = cs @
           (if node_pos sc < 0 then Place_left_arc (column col, row r) (color col)
            else Place_right_arc (column col, row r) (color col)) # vl \<and>
           (is_last col \<longrightarrow>
              (\<exists>x. track_origin col = Inr x \<and>
                 vl = [Place_vline_arc (fst x) (column col, row r) (snd x)])) \<and>
           (\<not> is_last col \<longrightarrow> vl = [])"
  using assms
  by (auto simp: render_col_defs split: if_splits sum.splits prod.splits)

lemma render_col_node_calls:
  assumes "is_node col"
      and "render_col recorder r col (sc, cs) = Inr (sc', cs')"
  shows "\<exists>vl. cs' = cs @
           Place_node (column col, row r) (color col) (label r) #
           (if arcs sc \<noteq> []
            then [Place_left_hline (column (hd (arcs sc)), row r) (column col, row r)
                    (color (hd (arcs sc)))]
            else []) @ vl \<and>
           (is_input col \<longrightarrow>
              (\<exists>x. track_origin col = Inr x \<and>
                 vl = [Place_vline_node (fst x) (column col, row r) (snd x)])) \<and>
           (\<not> is_input col \<longrightarrow> vl = [])"
  using assms
  by (auto simp: render_col_defs split: if_splits sum.splits prod.splits)

lemma render_col_other_calls:
  assumes "\<not> is_node col" "\<not> is_input col"
      and "render_col recorder r col (sc, cs) = Inr (sc', cs')"
  shows "cs' = cs"
  using assms
  by (auto simp: render_col_defs split: if_splits sum.splits prod.splits)

lemma render_cols_append:
  "render_cols st r (xs @ ys) a =
     (case render_cols st r xs a of
        Inl e \<Rightarrow> Inl e
      | Inr b \<Rightarrow> render_cols st r ys b)"
  by (induction xs arbitrary: a) (auto split: sum.splits)

text \<open>A stretch of the scan without Node cell.\<close>

lemma render_cols_no_node:
  assumes "\<forall>c\<in>set cols. \<not> is_node c" "node_pos sc \<noteq> 0"
      and "render_cols st r cols (sc, s) = Inr (sc', s')"
  shows "node_pos sc' = node_pos sc \<and> nodepos sc' = nodepos sc \<and>
         arcs sc' = arcs sc @ filter is_input cols"
  using assms
proof (induction cols arbitrary: sc s)
  case Nil
  then show ?case by simp
next
  case (Cons col cols)
  then obtain sc1 s1 where st: "render_col st r col (sc, s) = Inr (sc1, s1)"
      and rest: "render_cols st r cols (sc1, s1) = Inr (sc', s')"
    by (auto split: sum.splits)
  from Cons.prems render_col_scan [OF st]
  have 1: "node_pos sc1 = node_pos sc" "nodepos sc1 = nodepos sc"
      "arcs sc1 = arcs sc @ filter is_input [col]"
    by simp_all
  from Cons.IH [OF _ _ rest] Cons.prems 1 show ?case by simp
qed

lemma render_cols_last_col:
  assumes "render_cols st r cols (sc, s) = Inr (sc', s')"
  shows "last_col sc' = (if cols = [] then last_col sc else column (last cols))"
  using assms
proof (induction cols arbitrary: sc s)
  case Nil
  then show ?case by simp
next
  case (Cons col cols)
  then obtain sc1 s1 where st: "render_col st r col (sc, s) = Inr (sc1, s1)"
      and rest: "render_cols st r cols (sc1, s1) = Inr (sc', s')"
    by (auto split: sum.splits)
  from Cons.IH [OF rest] render_col_scan(1) [OF st] show ?case by simp
qed

text \<open>The calls of a stretch of the scan.\<close>

lemma render_col_calls_kind:
  assumes "render_col recorder r col (sc, cs) = Inr (sc', cs')"
  shows "\<exists>new. cs' = cs @ new \<and> (\<forall>c\<in>set new. \<not> is_label c \<and> \<not> is_right_hline c) \<and>
           (\<not> is_node col \<longrightarrow> (\<forall>c\<in>set new. is_arc c \<or> is_vline c))"
  using assms
  by (auto simp: render_col_defs split: if_splits sum.splits prod.splits)

lemma render_cols_calls_kind:
  assumes "render_cols recorder r cols (sc, cs) = Inr (sc', cs')"
  shows "\<exists>new. cs' = cs @ new \<and> (\<forall>c\<in>set new. \<not> is_label c \<and> \<not> is_right_hline c) \<and>
           ((\<forall>c\<in>set cols. \<not> is_node c) \<longrightarrow> (\<forall>c\<in>set new. is_arc c \<or> is_vline c))"
  using assms
proof (induction cols arbitrary: sc cs)
  case Nil
  then show ?case by simp
next
  case (Cons col cols)
  then obtain sc1 cs1 where st: "render_col recorder r col (sc, cs) = Inr (sc1, cs1)"
      and rest: "render_cols recorder r cols (sc1, cs1) = Inr (sc', cs')"
    by (auto split: sum.splits)
  from render_col_calls_kind [OF st] obtain n1 where
    1: "cs1 = cs @ n1" "\<forall>c\<in>set n1. \<not> is_label c \<and> \<not> is_right_hline c"
       "\<not> is_node col \<longrightarrow> (\<forall>c\<in>set n1. is_arc c \<or> is_vline c)"
    by blast
  from Cons.IH [OF rest] obtain n2 where
    2: "cs' = cs1 @ n2" "\<forall>c\<in>set n2. \<not> is_label c \<and> \<not> is_right_hline c"
       "(\<forall>c\<in>set cols. \<not> is_node c) \<longrightarrow> (\<forall>c\<in>set n2. is_arc c \<or> is_vline c)"
    by blast
  show ?case
  proof (intro exI conjI)
    show "cs' = cs @ (n1 @ n2)" using 1 2 by simp
    show "\<forall>c\<in>set (n1 @ n2). \<not> is_label c \<and> \<not> is_right_hline c" using 1 2 by auto
    show "(\<forall>c\<in>set (col # cols). \<not> is_node c) \<longrightarrow> (\<forall>c\<in>set (n1 @ n2). is_arc c \<or> is_vline c)"
      using 1 2 by auto
  qed
qed

lemma arc_or_vline_not_hline: "is_arc c \<or> is_vline c \<Longrightarrow> \<not> is_hline c"
  by (cases c) simp_all

text \<open>A row whose scan has its last Node cell at \<open>nd\<close>, taken apart.\<close>

lemma render_cols_split:
  assumes "render_cols st r (pre @ nd # post) (sc, s) = Inr (sc3, s3)"
  obtains sc1 s1 sc2 s2 where
    "render_cols st r pre (sc, s) = Inr (sc1, s1)"
    "render_col st r nd (sc1, s1) = Inr (sc2, s2)"
    "render_cols st r post (sc2, s2) = Inr (sc3, s3)"
  using assms
  by (auto simp: render_cols_append split: sum.splits)

lemma render_cols_after_node:
  assumes "is_node nd" "\<forall>c\<in>set post. \<not> is_node c"
      and "render_cols st r (pre @ nd # post) (sc, s) = Inr (sc', s')"
  shows "node_pos sc' = - 1 \<and> nodepos sc' = (column nd, row r) \<and>
         arcs sc' = nd # filter is_input post"
proof -
  from assms(3) obtain sc1 s1 sc2 s2 where
      n: "render_col st r nd (sc1, s1) = Inr (sc2, s2)"
      and p: "render_cols st r post (sc2, s2) = Inr (sc', s')"
    by (rule render_cols_split)
  from render_col_scan [OF n] assms(1)
  have 2: "node_pos sc2 = - 1" "nodepos sc2 = (column nd, row r)" "arcs sc2 = [nd]"
    by simp_all
  from render_cols_no_node [OF assms(2) _ p] 2 show ?thesis by simp
qed

lemma row_end_recorder:
  "row_end recorder r (sc, cs) =
     cs @ (if 2 \<le> length (arcs sc)
           then [Place_right_hline (column (hd (arcs sc)), row r)
                   (column (last (arcs sc)), row r) (color (last (arcs sc)))]
           else []) @
     [Place_label (nodepos sc) (last_col sc + 1, row r) (label r)]"
  by (simp add: row_end_def recorder_def Let_def)

lemma row_calls_split:
  assumes "row_calls r = Inr cs"
  obtains sc cs0 where
    "render_cols recorder r (row_iter r) (init_scan, []) = Inr (sc, cs0)"
    "cs = row_end recorder r (sc, cs0)"
  using assms
  by (auto simp: row_calls_def render_row_def split: sum.splits)

lemma node_pos_init: "node_pos init_scan \<noteq> 0" "arcs init_scan = []"
  by (simp_all add: init_scan_def)

lemma filter_hline_kind:
  "\<forall>c\<in>set new. is_arc c \<or> is_vline c \<Longrightarrow> filter is_hline new = []"
  using arc_or_vline_not_hline by (auto simp: filter_empty_conv)

lemma render_cols_node_pos:
  assumes "render_cols st r cols (init_scan, s) = Inr (sc, s')"
  shows "node_pos sc = (if \<exists>c\<in>set cols. is_node c then - 1 else 1)"
proof (cases "\<exists>c\<in>set cols. is_node c")
  case False
  with render_cols_no_node [OF _ node_pos_init(1) assms] show ?thesis
    by (simp add: init_scan_def)
next
  case True
  then obtain pre nd post where
    "cols = pre @ nd # post" "is_node nd" "\<forall>c\<in>set post. \<not> is_node c"
    by (rule split_list_last_propE)
  with render_cols_after_node [of nd post st r pre init_scan s sc s'] assms True
  show ?thesis by simp
qed

lemma track_origin_Inr:
  assumes "track_origin col = Inr x"
  shows "\<exists>sr c0. start_row col = Some sr \<and> columns_get sr (column col) = Inr c0 \<and>
           x = ((column col, row sr), color c0)"
  using assms by (auto simp: track_origin_def split: option.splits sum.splits)

lemma sorted_last_Max:
  assumes "sorted (map f ys)" "ys \<noteq> []"
  shows "f (last ys) = Max (f ` set ys)"
proof -
  from assms(2) have ys: "ys = butlast ys @ [last ys]" by simp
  with assms(1) have "sorted (map f (butlast ys) @ [f (last ys)])"
    by (metis list.simps(8,9) map_append)
  then have "\<forall>y\<in>set (butlast ys). f y \<le> f (last ys)"
    by (auto simp: sorted_append)
  then have "\<forall>y\<in>set ys. f y \<le> f (last ys)"
    using ys by (metis Un_iff insert_iff list.set(2) order_refl set_append empty_iff list.set(1))
  then show ?thesis
    using assms(2) by (intro Max_eqI [symmetric]) auto
qed

lemma last_col_row_iter:
  assumes "columns r \<noteq> []"
  shows "column (last (row_iter r)) = Max (column ` set (columns r))"
proof -
  have "set (row_iter r) = set (columns r)" by (simp add: row_iter_def)
  with assms have "row_iter r \<noteq> []" by auto
  moreover have "sorted (map column (row_iter r))" by (simp add: row_iter_def)
  ultimately have "column (last (row_iter r)) = Max (column ` set (row_iter r))"
    by (rule sorted_last_Max [rotated])
  then show ?thesis by (simp add: row_iter_def)
qed

lemma row_iter_node_split:
  assumes "\<exists>c\<in>set (columns r). is_node c"
  shows "\<exists>pre post. row_iter r = pre @ node_cell r # post \<and> is_node (node_cell r) \<and>
           (\<forall>c\<in>set post. \<not> is_node c)"
proof -
  from assms have "\<exists>c\<in>set (row_iter r). is_node c" by (simp add: row_iter_def)
  then obtain pre nd post where
    s: "row_iter r = pre @ nd # post" "is_node nd" "\<forall>c\<in>set post. \<not> is_node c"
    by (rule split_list_last_propE)
  then have "filter is_node (row_iter r) = filter is_node pre @ [nd]" by simp
  then have "node_cell r = nd" by (simp add: node_cell_def)
  with s show ?thesis by blast
qed

lemma row_label:
  assumes "\<exists>c\<in>set (columns r). is_node c" and "row_calls r = Inr cs"
  shows "filter is_label cs =
           [Place_label (column (node_cell r), row r)
              (Max (column ` set (columns r)) + 1, row r) (label r)]"
proof -
  from row_iter_node_split [OF assms(1)] obtain pre post where
    s: "row_iter r = pre @ node_cell r # post" "is_node (node_cell r)"
       "\<forall>c\<in>set post. \<not> is_node c"
    by blast
  from assms(2) obtain sc cs0 where
      all: "render_cols recorder r (row_iter r) (init_scan, []) = Inr (sc, cs0)"
      and cs: "cs = row_end recorder r (sc, cs0)"
    by (rule row_calls_split)
  from all s(1)
  have all': "render_cols recorder r (pre @ node_cell r # post) (init_scan, []) = Inr (sc, cs0)"
    by simp
  have 1: "nodepos sc = (column (node_cell r), row r)"
    using render_cols_after_node [OF s(2,3) all'] by simp
  from assms(1) have ne: "columns r \<noteq> []" by auto
  have 2: "last_col sc = Max (column ` set (columns r))"
    using render_cols_last_col [OF all] s(1) last_col_row_iter [OF ne] by simp
  have 3: "filter is_label cs0 = []"
    using render_cols_calls_kind [OF all] by (auto simp: filter_empty_conv)
  show ?thesis unfolding cs row_end_recorder using 1 2 3 by simp
qed

lemma render_rows_Cons_calls:
  assumes "render_rows recorder (r # rs) [] = Inr cs"
  shows "\<exists>cs1 cs2. row_calls r = Inr cs1 \<and> render_rows recorder rs [] = Inr cs2 \<and>
           cs = cs1 @ cs2"
proof -
  from assms obtain cs1 where 1: "render_row recorder r [] = Inr cs1"
      and 2: "render_rows recorder rs cs1 = Inr cs"
    by (auto split: sum.splits)
  from 2 render_rows_recorder [of rs cs1] obtain cs2 where
    "render_rows recorder rs [] = Inr cs2" "cs = cs1 @ cs2"
    by (auto split: sum.splits)
  with 1 show ?thesis by (simp add: row_calls_def)
qed

section \<open>Evaluating the examples\<close>

lemmas example_defs =
  cell_A_def row_A_def cell_B_def row_B_def input_A_def input_B_def cell_C2_def row_C2_def
  plot_C2_def cell_B2_def row_B2_def input_B2_def cell_C1_def row_C1_def plot_AB2C_def
  chain_B_def chain_row_B_def chain_C_def chain_row_C_def chain_D_def chain_row_D_def
  plot_chain_def cell_C0_def row_C0_def plot_ABC_def

lemmas eval_defs =
  render_calls_def row_calls_def render_row_def row_iter_def render_col_defs init_scan_def
  row_end_def track_origin_def columns_get_def node_cell_def

lemma row_C2_iter: "row_iter row_C2 = [input_A, input_B, cell_C2]"
  by (simp add: row_iter_def example_defs)

lemma row_C2_calls:
  "row_calls row_C2 =
     Inr [Place_right_arc (0, 2) 0, Place_vline_arc (0, 0) (0, 2) 0,
          Place_right_arc (1, 2) 1, Place_vline_arc (1, 1) (1, 2) 1,
          Place_node (2, 2) 2 ''C'', Place_left_hline (0, 2) (2, 2) 0,
          Place_label (2, 2) (3, 2) ''C'']"
  by (simp add: eval_defs example_defs)

lemma row_C0_iter: "row_iter row_C0 = [cell_C0, input_B]"
  by (simp add: row_iter_def example_defs)

lemma row_C0_calls:
  "row_calls row_C0 =
     Inr [Place_node (0, 2) 0 ''C'', Place_vline_node (0, 0) (0, 2) 0,
          Place_left_arc (1, 2) 1, Place_vline_arc (1, 1) (1, 2) 1,
          Place_right_hline (0, 2) (1, 2) 1, Place_label (0, 2) (2, 2) ''C'']"
  by (simp add: eval_defs example_defs)

lemma row_C1_iter: "row_iter row_C1 = [input_A, cell_C1, input_B2]"
  by (simp add: row_iter_def example_defs)

lemma row_C1_calls:
  "row_calls row_C1 =
     Inr [Place_right_arc (0, 2) 0, Place_vline_arc (0, 0) (0, 2) 0,
          Place_node (1, 2) 2 ''C'', Place_left_hline (0, 2) (1, 2) 0,
          Place_left_arc (2, 2) 1, Place_vline_arc (2, 1) (2, 2) 1,
          Place_right_hline (1, 2) (2, 2) 1, Place_label (1, 2) (3, 2) ''C'']"
  by (simp add: eval_defs example_defs)

lemma example_flags:
  "is_input input_A" "\<not> is_node input_A" "is_last input_A"
  "is_input input_B" "\<not> is_node input_B" "is_last input_B"
  "is_input input_B2" "\<not> is_node input_B2" "is_last input_B2"
  "is_node cell_C2" "\<not> is_input cell_C2" "is_node cell_C1" "\<not> is_input cell_C1"
  "is_node chain_B" "is_input chain_B"
  by (simp_all add: example_defs)

section \<open>The plot builder and the order of the nodes\<close>

lemma add_input_keys:
  assumes "add_input q (r, p) = Inr (r', p')"
  shows "keys p' \<subseteq> keys p" and "q \<in> keys p"
proof -
  from assms obtain t where t: "map_of (p_tracks p) q = Some t"
    by (auto simp: add_input_def split: option.splits)
  then show q: "q \<in> keys p"
    by (auto simp: keys_def dest: map_of_SomeD intro: rev_image_eqI)
  from assms t have "p_tracks p' = AList.delete q (p_tracks p) \<or>
      p_tracks p' = AList.update q (t\<lparr>t_remaining := t_remaining t - 1\<rparr>) (p_tracks p)"
    by (auto simp: add_input_def Let_def split: if_splits)
  then show "keys p' \<subseteq> keys p"
  proof
    assume "p_tracks p' = AList.delete q (p_tracks p)"
    then show ?thesis using dom_delete_subset [of q "p_tracks p"] by (simp add: keys_def)
  next
    assume "p_tracks p' = AList.update q (t\<lparr>t_remaining := t_remaining t - 1\<rparr>) (p_tracks p)"
    then show ?thesis using q by (simp add: keys_def dom_update)
  qed
qed

lemma add_input_error:
  "add_input q a = Inl e \<Longrightarrow> e = InvalidOrderingError"
  by (cases a) (auto simp: add_input_def Let_def split: option.splits)

lemma add_inputs_keys:
  "add_inputs qs (r, p) = Inr (r', p') \<Longrightarrow> keys p' \<subseteq> keys p"
proof (induction qs arbitrary: r p)
  case Nil
  then show ?case by simp
next
  case (Cons q qs)
  then obtain r1 p1 where 1: "add_input q (r, p) = Inr (r1, p1)"
      and 2: "add_inputs qs (r1, p1) = Inr (r', p')"
    by (auto split: sum.splits)
  from Cons.IH [OF 2] add_input_keys(1) [OF 1] show ?case by blast
qed

lemma add_inputs_error:
  "add_inputs qs a = Inl e \<Longrightarrow> e = InvalidOrderingError"
proof (induction qs arbitrary: a)
  case Nil
  then show ?case by simp
next
  case (Cons q qs)
  then show ?case
    by (cases "add_input q a") (auto dest: add_input_error)
qed

lemma add_inputs_unopened:
  assumes "q \<in> set qs" "q \<notin> keys p"
  shows "add_inputs qs (r, p) = Inl InvalidOrderingError"
proof (cases "add_inputs qs (r, p)")
  case (Inl e)
  then show ?thesis by (simp add: add_inputs_error)
next
  case (Inr b)
  have "add_inputs qs (r, p) = Inr b \<Longrightarrow> q \<in> set qs \<Longrightarrow> q \<in> keys p" for r p
  proof (induction qs arbitrary: r p)
    case Nil
    then show ?case by simp
  next
    case (Cons x xs)
    then obtain r1 p1 where 1: "add_input x (r, p) = Inr (r1, p1)"
        and 2: "add_inputs xs (r1, p1) = Inr b"
      by (auto split: sum.splits)
    show ?case
    proof (cases "q = x")
      case True
      with add_input_keys(2) [OF 1] show ?thesis by simp
    next
      case False
      with Cons.prems have "q \<in> set xs" by simp
      from Cons.IH [OF 2 this] add_input_keys(1) [OF 1] show ?thesis by blast
    qed
  qed
  from this [OF Inr assms(1)] assms(2) show ?thesis by simp
qed

lemma add_node_keys:
  "keys (snd (add_node pol nd k (r, p))) \<subseteq> insert nd (keys p)"
  by (auto simp: add_node_def keys_def Let_def dom_update)

lemma plot_node_error:
  assumes "G nd = Some v" "plot_node pol G nd p = Inl e"
  shows "e = InvalidOrderingError"
  using assms by (auto simp: plot_node_def Let_def split: sum.splits dest: add_inputs_error)

lemma plot_node_keys:
  assumes "plot_node pol G nd p = Inr p'"
  shows "keys p' \<subseteq> insert nd (keys p)"
proof -
  from assms obtain v where v: "G nd = Some v"
    by (auto simp: plot_node_def split: option.splits)
  define r where "r = add_row (case label_attr v of None \<Rightarrow> nd | Some l \<Rightarrow> l) p"
  from assms v obtain r1 p1 where
      1: "add_inputs (pred v) (r, p) = Inr (r1, p1)"
      and p': "p' = snd (add_node pol nd (int (length (succ v))) (r1, p1))"
    by (auto simp: plot_node_def Let_def r_def split: sum.splits)
  from add_inputs_keys [OF 1] add_node_keys [of pol nd "int (length (succ v))" r1 p1] p'
  show ?thesis by blast
qed

lemma plot_node_unopened:
  assumes "G nd = Some v" "q \<in> set (pred v)" "q \<notin> keys p"
  shows "plot_node pol G nd p = Inl InvalidOrderingError"
  using assms by (simp add: plot_node_def Let_def add_inputs_unopened)

lemma plot_nodes_unopened:
  assumes "set sequence \<subseteq> dom G"
      and "i < length sequence" "G (sequence ! i) = Some v"
      and "q \<in> set (pred v)" "q \<notin> keys p" "q \<notin> set (take i sequence)"
  shows "plot_nodes pol G sequence p = Inl InvalidOrderingError"
  using assms
proof (induction sequence arbitrary: i p)
  case Nil
  then show ?case by simp
next
  case (Cons nd nds)
  from Cons.prems(1) obtain w where w: "G nd = Some w" by auto
  show ?case
  proof (cases i)
    case 0
    with Cons.prems w have "plot_node pol G nd p = Inl InvalidOrderingError"
      by (auto intro: plot_node_unopened)
    then show ?thesis by simp
  next
    case (Suc j)
    show ?thesis
    proof (cases "plot_node pol G nd p")
      case (Inl e)
      with plot_node_error [OF w Inl] show ?thesis by simp
    next
      case (Inr p1)
      from Cons.prems Suc have q: "q \<noteq> nd" "q \<notin> set (take j nds)" by auto
      with plot_node_keys [OF Inr] Cons.prems(5) have "q \<notin> keys p1" by auto
      from Cons.prems Suc have "set nds \<subseteq> dom G" "j < length nds" "G (nds ! j) = Some v"
        by auto
      from Cons.IH [OF this Cons.prems(4) \<open>q \<notin> keys p1\<close> q(2)]
      have "plot_nodes pol G nds p1 = Inl InvalidOrderingError" .
      with Inr show ?thesis by simp
    qed
  qed
qed

text \<open>The plot of the graph with the edges from \<open>A\<close> to \<open>C\<close> and from \<open>B\<close> to \<open>C\<close>.\<close>

lemma ABC_as_built:
  "make_abstract_plot lowest_free graph_ABC (Sequence [''A'', ''B'', ''C'']) = Inr plot_ABC"
  by (simp add: make_abstract_plot_def sequence_of_def plot_node_def graph_ABC_def
        add_row_def add_input_def add_node_def columns_put_def lowest_free_def empty_plot_def
        example_defs Let_def)

text \<open>
  A chain, built with the lowest free column: when a node is reached, the one open track is
  that of the node before it, in column 0; its Input cell closes it, and the node takes
  column 0 again.
\<close>

lemma plot_nodes_chain:
  assumes "distinct nds"
      and "\<forall>x\<in>set nds. G x = map_of (chain_views (map_option fst prev) nds) x"
      and "p_tracks p =
             (case prev of None \<Rightarrow> []
              | Some (q, r) \<Rightarrow>
                  [(q, \<lparr> t_column = 0, t_color = 0, t_origin = r, t_remaining = 1 \<rparr>)])"
      and "p_start p = 0"
  shows "\<exists>p'. plot_nodes lowest_free G nds p = Inr p' \<and> p_start p' = 0 \<and>
           p_rows p' =
             p_rows p @ chain_rows (map_option snd prev) (int (length (p_rows p))) nds"
  using assms
proof (induction nds arbitrary: prev p)
  case Nil
  then show ?case by simp
next
  case (Cons nd nds)
  define cell where "cell =
    (case prev of None \<Rightarrow> AbstractColumn 0 0 True False False None
     | Some (q, ra) \<Rightarrow> AbstractColumn 0 0 True True True (Some ra))"
  define r where "r = AbstractRow (int (length (p_rows p))) nd [cell]"
  define tracks where "tracks =
    (case nds of [] \<Rightarrow> []
     | s # rest \<Rightarrow> [(nd, \<lparr> t_column = 0, t_color = 0, t_origin = r, t_remaining = 1 \<rparr>)])"
  define p1 where "p1 =
    \<lparr> p_rows = p_rows p @ [r], p_tracks = tracks,
      p_colors = max (p_colors p) (int (length tracks)), p_start = 0 \<rparr>"
  from Cons.prems(2) have G: "G nd = Some \<lparr> label_attr = None,
      pred = (case map_option fst prev of None \<Rightarrow> [] | Some q \<Rightarrow> [q]),
      succ = (case nds of [] \<Rightarrow> [] | s # rest \<Rightarrow> [s]) \<rparr>"
    by simp
  have step: "plot_node lowest_free G nd p = Inr p1"
    using G Cons.prems(3,4)
    by (cases prev; cases nds)
       (auto simp: plot_node_def add_row_def add_input_def add_node_def columns_put_def
          lowest_free_def Let_def p1_def tracks_def r_def cell_def)
  define prev1 where "prev1 = (case nds of [] \<Rightarrow> None | s # rest \<Rightarrow> Some (nd, r))"
  have a: "distinct nds" using Cons.prems(1) by simp
  have b: "\<forall>x\<in>set nds. G x = map_of (chain_views (map_option fst prev1) nds) x"
    using Cons.prems(1,2) by (cases nds) (auto simp: prev1_def)
  have c: "p_tracks p1 =
             (case prev1 of None \<Rightarrow> []
              | Some (q, r) \<Rightarrow>
                  [(q, \<lparr> t_column = 0, t_color = 0, t_origin = r, t_remaining = 1 \<rparr>)])"
    by (cases nds) (simp_all add: p1_def tracks_def prev1_def)
  have d: "p_start p1 = 0" by (simp add: p1_def)
  from Cons.IH [OF a b c d] obtain p' where
    p': "plot_nodes lowest_free G nds p1 = Inr p'" "p_start p' = 0"
        "p_rows p' = p_rows p1 @ chain_rows (map_option snd prev1) (int (length (p_rows p1))) nds"
    by blast
  have e: "chain_rows (map_option snd prev1) (int (length (p_rows p1))) nds =
           chain_rows (Some r) (int (length (p_rows p)) + 1) nds"
    by (cases nds) (simp_all add: prev1_def p1_def add.commute)
  have f: "chain_rows (map_option snd prev) (int (length (p_rows p))) (nd # nds) =
           r # chain_rows (Some r) (int (length (p_rows p)) + 1) nds"
    by (cases prev) (auto simp: r_def cell_def Let_def)
  from step p' e f show ?case by (simp add: p1_def)
qed


lemma chain_rows_length: "length (chain_rows prev i nds) = length nds"
  by (induction nds arbitrary: prev i) (simp_all add: Let_def)

lemma chain_rows_nth:
  assumes "k < length nds" "0 < k \<or> prev \<noteq> None"
      and "\<forall>ra. prev = Some ra \<longrightarrow>
             row ra = i - 1 \<and> (\<exists>c. columns ra = [c] \<and> column c = 0 \<and> color c = 0)"
  shows "chain_row_shape
           (if k = 0 then the prev else chain_rows prev i nds ! (k - 1))
           (chain_rows prev i nds ! k) (i + int k) (nds ! k)"
  using assms
proof (induction nds arbitrary: prev i k)
  case Nil
  then show ?case by simp
next
  case (Cons nd nds)
  define r where "r = AbstractRow i nd
     [case prev of None \<Rightarrow> AbstractColumn 0 0 True False False None
      | Some ra \<Rightarrow> AbstractColumn 0 0 True True True (Some ra)]"
  have rows: "chain_rows prev i (nd # nds) = r # chain_rows (Some r) (i + 1) nds"
    by (simp add: r_def Let_def)
  show ?case
  proof (cases k)
    case 0
    with Cons.prems obtain ra where "prev = Some ra" by auto
    with Cons.prems(3) 0 show ?thesis
      by (simp add: chain_row_shape_def Let_def)
  next
    case (Suc j)
    have r: "\<forall>ra. Some r = Some ra \<longrightarrow>
             row ra = i + 1 - 1 \<and> (\<exists>c. columns ra = [c] \<and> column c = 0 \<and> color c = 0)"
      by (cases prev) (simp_all add: r_def)
    from Cons.prems(1) Suc have j: "j < length nds" by simp
    from Cons.IH [OF j _ r] have
      "chain_row_shape (if j = 0 then r else chain_rows (Some r) (i + 1) nds ! (j - 1))
         (chain_rows (Some r) (i + 1) nds ! j) (i + 1 + int j) (nds ! j)"
      by (cases "j = 0") auto
    then show ?thesis
      by (cases j) (simp_all add: rows Suc algebra_simps del: chain_rows.simps)
  qed
qed

lemma chain_row_calls:
  assumes "chain_row_shape ra r i nd"
  shows "row_iter r = [AbstractColumn 0 0 True True True (Some ra)]"
    and "row_calls r =
           Inr [Place_node (0, i) 0 nd, Place_vline_node (0, i - 1) (0, i) 0,
                Place_label (0, i) (1, i) nd]"
  using assms
  by (auto simp: chain_row_shape_def eval_defs)

lemma chain_graph_built:
  assumes "distinct nds"
  shows "\<exists>plot. make_abstract_plot lowest_free (chain_graph nds) (Sequence nds) = Inr plot \<and>
           rows plot = chain_rows None 0 nds"
proof -
  have "\<exists>p'. plot_nodes lowest_free (chain_graph nds) nds empty_plot = Inr p' \<and> p_start p' = 0 \<and>
           p_rows p' =
             p_rows empty_plot @ chain_rows (map_option snd None) (int (length (p_rows empty_plot))) nds"
    using plot_nodes_chain [OF assms, of "chain_graph nds" None empty_plot]
    by (simp add: chain_graph_def empty_plot_def)
  then show ?thesis
    by (auto simp: make_abstract_plot_def sequence_of_def empty_plot_def)
qed


lemma make_abstract_plot_sequence:
  "make_abstract_plot pol G order = make_abstract_plot pol G (Sequence (sequence_of G order))"
  by (simp add: make_abstract_plot_def sequence_of_def)

section \<open>The range of the colour components\<close>

declare hex.simps [simp del]

lemma rnd_nonneg:
  assumes "accurate rnd" "0 \<le> x" "x \<le> 1024"
  shows "0 \<le> rnd x"
    and "x * (1023 / 1024) - 1 / 1048576 \<le> rnd x"
    and "rnd x \<le> x * (1025 / 1024) + 1 / 1048576"
proof -
  from assms(1) have a: "0 \<le> x \<longrightarrow> 0 \<le> rnd x"
      "\<bar>x\<bar> \<le> 1024 \<longrightarrow> \<bar>rnd x - x\<bar> \<le> \<bar>x\<bar> / 1024 + 1 / 1048576"
    unfolding accurate_def by blast+
  from a(1) assms(2) show "0 \<le> rnd x" by simp
  from a(2) assms(2,3) have "\<bar>rnd x - x\<bar> \<le> \<bar>x\<bar> / 1024 + 1 / 1048576" by simp
  with assms(2)
  show "x * (1023 / 1024) - 1 / 1048576 \<le> rnd x" "rnd x \<le> x * (1025 / 1024) + 1 / 1048576"
    by linarith+
qed

lemma rnd_nonpos:
  assumes "accurate rnd" "x \<le> 0" "- 1024 \<le> x"
  shows "rnd x \<le> 0"
    and "x * (1025 / 1024) - 1 / 1048576 \<le> rnd x"
    and "rnd x \<le> x * (1023 / 1024) + 1 / 1048576"
proof -
  from assms(1) have a: "x \<le> 0 \<longrightarrow> rnd x \<le> 0"
      "\<bar>x\<bar> \<le> 1024 \<longrightarrow> \<bar>rnd x - x\<bar> \<le> \<bar>x\<bar> / 1024 + 1 / 1048576"
    unfolding accurate_def by blast+
  from a(1) assms(2) show "rnd x \<le> 0" by simp
  from a(2) assms(2,3) have "\<bar>rnd x - x\<bar> \<le> \<bar>x\<bar> / 1024 + 1 / 1048576" by simp
  with assms(2)
  show "x * (1025 / 1024) - 1 / 1048576 \<le> rnd x" "rnd x \<le> x * (1023 / 1024) + 1 / 1048576"
    by linarith+
qed

lemma scale_nonneg:
  fixes d t T :: rat
  assumes "0 \<le> t" "t \<le> T" "0 \<le> d"
  shows "0 \<le> d * t" and "d * t \<le> d * T"
  using assms by (simp_all add: mult_left_mono)

lemma scale_nonpos:
  fixes d t T :: rat
  assumes "0 \<le> t" "t \<le> T" "d \<le> 0"
  shows "d * T \<le> d * t" and "d * t \<le> 0"
  using assms by (simp_all add: mult_left_mono_neg mult_nonpos_nonneg)

lemma scale_lower:
  fixes d t T :: rat
  assumes "T \<le> t" "0 \<le> d"
  shows "d * T \<le> d * t"
  using assms by (simp add: mult_left_mono)

text \<open>The interpolation of \<open>_v\<close>, for a weight \<open>t\<close> of at most about a sixth.\<close>

lemma interpolate_range:
  assumes acc: "accurate rnd"
      and m: "1 / 50 \<le> m1" "m1 \<le> 9 / 10" "1 / 50 \<le> m2" "m2 \<le> 9 / 10"
      and t: "0 \<le> t" "t \<le> 168 / 1000"
  shows "component (rnd (m1 + rnd (rnd (rnd (m2 - m1) * t) * 6)))"
proof -
  define x0 where "x0 = m2 - m1"
  define d where "d = rnd x0"
  define dt where "dt = d * t"
  define p where "p = rnd dt"
  define p6 where "p6 = p * 6"
  define q where "q = rnd p6"
  define w where "w = m1 + q"
  have "0 \<le> w \<and> w \<le> 98 / 100"
  proof (cases "m1 \<le> m2")
    case True
    with m have x0: "0 \<le> x0" "x0 \<le> 1024" "x0 = m2 - m1" by (simp_all add: x0_def)
    from rnd_nonneg [OF acc x0(1,2)]
    have d: "0 \<le> d" "d \<le> x0 * (1025 / 1024) + 1 / 1048576" by (simp_all add: d_def)
    from scale_nonneg [OF t d(1)] have dt: "0 \<le> dt" "dt \<le> d * (168 / 1000)"
      by (simp_all add: dt_def)
    from d dt x0 m have "dt \<le> 1024" by linarith
    from rnd_nonneg [OF acc dt(1) this]
    have p: "0 \<le> p" "p \<le> dt * (1025 / 1024) + 1 / 1048576" by (simp_all add: p_def)
    from p d dt x0 m have p6: "0 \<le> p6" "p6 \<le> 1024" "p6 = p * 6"
      unfolding p6_def by linarith+
    from rnd_nonneg [OF acc p6(1,2)]
    have q: "0 \<le> q" "q \<le> p6 * (1025 / 1024) + 1 / 1048576" by (simp_all add: q_def)
    from x0 d dt p p6 q m have "0 \<le> w" "w \<le> 98 / 100" unfolding w_def by linarith+
    then show ?thesis by simp
  next
    case False
    with m have x0: "x0 \<le> 0" "- 1024 \<le> x0" "x0 = m2 - m1" by (simp_all add: x0_def)
    from rnd_nonpos [OF acc x0(1,2)]
    have d: "d \<le> 0" "x0 * (1025 / 1024) - 1 / 1048576 \<le> d" by (simp_all add: d_def)
    from scale_nonpos [OF t d(1)] have dt: "d * (168 / 1000) \<le> dt" "dt \<le> 0"
      by (simp_all add: dt_def)
    from d dt x0 m have "- 1024 \<le> dt" by linarith
    from rnd_nonpos [OF acc dt(2) this]
    have p: "p \<le> 0" "dt * (1025 / 1024) - 1 / 1048576 \<le> p" by (simp_all add: p_def)
    from p d dt x0 m have p6: "p6 \<le> 0" "- 1024 \<le> p6" "p6 = p * 6"
      unfolding p6_def by linarith+
    from rnd_nonpos [OF acc p6(1,2)]
    have q: "q \<le> 0" "p6 * (1025 / 1024) - 1 / 1048576 \<le> q" by (simp_all add: q_def)
    from x0 d dt p p6 q m have "0 \<le> w" "w \<le> 98 / 100" unfolding w_def by linarith+
    then show ?thesis by simp
  qed
  then have w: "0 \<le> w" "w \<le> 1024" "w \<le> 98 / 100" by simp_all
  from rnd_nonneg [OF acc w(1,2)] w(3)
  have "0 \<le> rnd w" "rnd w \<le> 99 / 100" by linarith+
  then show ?thesis
    by (simp add: component_def w_def q_def p6_def p_def dt_def d_def x0_def)
qed

lemma mod_one_nonneg:
  assumes "accurate rnd"
  shows "0 \<le> mod_one rnd x"
proof -
  define m where "m = x - of_int (py_int x)"
  have "- 1 < m"
    unfolding m_def py_int_def by (auto; linarith)
  then have "m < 0 \<Longrightarrow> 0 \<le> rnd (m + 1)"
    using rnd_nonneg(1) [OF assms, of "m + 1"] by auto
  then show ?thesis
    by (auto simp: mod_one_def Let_def m_def [symmetric])
qed

lemma hls_v_range:
  assumes acc: "accurate rnd"
      and m: "1 / 50 \<le> m1" "m1 \<le> 9 / 10" "1 / 50 \<le> m2" "m2 \<le> 9 / 10"
  shows "component (hls_v rnd m1 m2 x)"
proof -
  define hue where "hue = mod_one rnd x"
  have h0: "0 \<le> hue" unfolding hue_def by (rule mod_one_nonneg [OF acc])
  have sixth: "ONE_SIXTH rnd \<le> 168 / 1000"
    using rnd_nonneg(3) [OF acc, of "1 / 6"] by (simp add: ONE_SIXTH_def)
  have third: "TWO_THIRD rnd \<le> 6674 / 10000"
    using rnd_nonneg(3) [OF acc, of "2 / 3"] by (simp add: TWO_THIRD_def)
  from m have mm: "component m1" "component m2" by (simp_all add: component_def)
  consider (a) "hue < ONE_SIXTH rnd"
    | (b) "\<not> hue < ONE_SIXTH rnd" "hue < 1 / 2"
    | (c) "\<not> hue < ONE_SIXTH rnd" "\<not> hue < 1 / 2" "hue < TWO_THIRD rnd"
    | (d) "\<not> hue < ONE_SIXTH rnd" "\<not> hue < 1 / 2" "\<not> hue < TWO_THIRD rnd"
    by blast
  then show ?thesis
  proof cases
    case a
    with sixth have "hue \<le> 168 / 1000" by simp
    from interpolate_range [OF acc m h0 this] a show ?thesis
      by (simp add: hls_v_def Let_def hue_def [symmetric])
  next
    case b
    with mm show ?thesis by (simp add: hls_v_def Let_def hue_def [symmetric])
  next
    case c
    define y where "y = TWO_THIRD rnd - hue"
    define u where "u = rnd y"
    from c third have y: "0 \<le> y" "y \<le> 1024" "y \<le> 1674 / 10000"
      by (simp_all add: y_def)
    from rnd_nonneg [OF acc y(1,2)] y(3)
    have "0 \<le> u" "u \<le> 168 / 1000"
      unfolding u_def by linarith+
    from interpolate_range [OF acc m this] c show ?thesis
      by (simp add: hls_v_def Let_def hue_def [symmetric] u_def y_def)
  next
    case d
    with mm show ?thesis by (simp add: hls_v_def Let_def hue_def [symmetric])
  qed
qed

text \<open>The lightness that \<open>palette\<close> passes on.\<close>

lemma lightness_range:
  assumes acc: "accurate rnd" and li: "0 \<le> lightness" "lightness \<le> 2"
  shows "39 / 100 \<le> rnd (rnd (4 / 10) + rnd (rnd (of_int lightness / 2) * rnd (3 / 10)))"
    and "rnd (rnd (4 / 10) + rnd (rnd (of_int lightness / 2) * rnd (3 / 10))) \<le> 71 / 100"
proof -
  define a where "a = rnd (4 / 10)"
  define b where "b = rnd (3 / 10)"
  define x :: rat where "x = of_int lightness / 2"
  define c where "c = rnd x"
  define cb where "cb = c * b"
  define e where "e = rnd cb"
  define f where "f = a + e"
  from rnd_nonneg [OF acc, of "4 / 10"]
  have a: "4 / 10 * (1023 / 1024) - 1 / 1048576 \<le> a" "a \<le> 4 / 10 * (1025 / 1024) + 1 / 1048576"
    by (simp_all add: a_def)
  from rnd_nonneg [OF acc, of "3 / 10"]
  have b: "0 \<le> b" "b \<le> 3 / 10 * (1025 / 1024) + 1 / 1048576" by (simp_all add: b_def)
  from li have x: "0 \<le> x" "x \<le> 1024" "x \<le> 1" by (simp_all add: x_def)
  from rnd_nonneg [OF acc x(1,2)] x(3) have c: "0 \<le> c" "c \<le> 1026 / 1024"
    unfolding c_def by linarith+
  from scale_nonneg [OF c b(1)] have cb: "0 \<le> cb" "cb \<le> b * (1026 / 1024)"
    by (simp_all add: cb_def mult.commute)
  from cb b have "cb \<le> 1024" by linarith
  from rnd_nonneg [OF acc cb(1) this]
  have e: "0 \<le> e" "e \<le> cb * (1025 / 1024) + 1 / 1048576" by (simp_all add: e_def)
  from a b cb e have f: "0 \<le> f" "f \<le> 1024" "399 / 1000 \<le> f" "f \<le> 703 / 1000"
    unfolding f_def by linarith+
  from rnd_nonneg [OF acc f(1,2)] f(3,4) have "39 / 100 \<le> rnd f" "rnd f \<le> 71 / 100"
    by linarith+
  then show
    "39 / 100 \<le> rnd (rnd (4 / 10) + rnd (rnd (of_int lightness / 2) * rnd (3 / 10)))"
    "rnd (rnd (4 / 10) + rnd (rnd (of_int lightness / 2) * rnd (3 / 10))) \<le> 71 / 100"
    by (simp_all add: f_def e_def cb_def c_def x_def b_def a_def)
qed

text \<open>\<open>m1\<close> and \<open>m2\<close> of \<open>hls_to_rgb\<close>, for such a lightness and the saturation \<open>0.5\<close>.\<close>

lemma m_range_low:
  assumes acc: "accurate rnd" and l: "39 / 100 \<le> l" "l \<le> 1 / 2"
  defines "m2 \<equiv> rnd (l * rnd (3 / 2))"
  defines "m1 \<equiv> rnd (rnd (2 * l) - m2)"
  shows "1 / 50 \<le> m1 \<and> m1 \<le> 9 / 10 \<and> 1 / 50 \<le> m2 \<and> m2 \<le> 9 / 10"
proof -
  define k where "k = rnd (3 / 2)"
  define lk where "lk = l * k"
  define l2 where "l2 = 2 * l"
  define x2 where "x2 = rnd l2"
  define y where "y = x2 - m2"
  from rnd_nonneg [OF acc, of "3 / 2"]
  have k: "3 / 2 * (1023 / 1024) - 1 / 1048576 \<le> k" "k \<le> 3 / 2 * (1025 / 1024) + 1 / 1048576"
    by (simp_all add: k_def)
  from l have l0: "0 \<le> l" by simp
  from scale_lower [OF k(1) l0] scale_nonneg(2) [OF _ k(2) l0] k
  have lk: "l * (3 / 2 * (1023 / 1024) - 1 / 1048576) \<le> lk"
      "lk \<le> l * (3 / 2 * (1025 / 1024) + 1 / 1048576)"
    by (simp_all add: lk_def)
  then have lk': "l * (1498 / 1000) \<le> lk" "lk \<le> l * (1502 / 1000)"
    using l0 by (simp_all add: algebra_simps)
  with l have lk0: "0 \<le> lk" "lk \<le> 1024" by linarith+
  from rnd_nonneg [OF acc lk0]
  have m2: "lk * (1023 / 1024) - 1 / 1048576 \<le> m2" "m2 \<le> lk * (1025 / 1024) + 1 / 1048576"
    by (simp_all add: m2_def lk_def k_def)
  from l have l2: "0 \<le> l2" "l2 \<le> 1024" "l2 = 2 * l" by (simp_all add: l2_def)
  from rnd_nonneg [OF acc l2(1,2)]
  have x2: "l2 * (1023 / 1024) - 1 / 1048576 \<le> x2" "x2 \<le> l2 * (1025 / 1024) + 1 / 1048576"
    by (simp_all add: x2_def)
  from lk' m2 x2 l2 l have y: "0 \<le> y" "y \<le> 1024" "3 / 100 \<le> y" "y \<le> 8 / 10"
    unfolding y_def by linarith+
  from rnd_nonneg [OF acc y(1,2)]
  have m1: "y * (1023 / 1024) - 1 / 1048576 \<le> m1" "m1 \<le> y * (1025 / 1024) + 1 / 1048576"
    by (simp_all add: m1_def y_def x2_def l2_def)
  from m1 y have "1 / 50 \<le> m1" "m1 \<le> 9 / 10" by linarith+
  moreover from m2 lk' l have "1 / 50 \<le> m2" "m2 \<le> 9 / 10" by linarith+
  ultimately show ?thesis by simp
qed

lemma m_range_high:
  assumes acc: "accurate rnd" and l: "1 / 2 < l" "l \<le> 71 / 100"
  defines "m2 \<equiv> rnd (rnd (l + 1 / 2) - rnd (l * (1 / 2)))"
  defines "m1 \<equiv> rnd (rnd (2 * l) - m2)"
  shows "1 / 50 \<le> m1 \<and> m1 \<le> 9 / 10 \<and> 1 / 50 \<le> m2 \<and> m2 \<le> 9 / 10"
proof -
  define z where "z = l + 1 / 2"
  define a where "a = rnd z"
  define h where "h = l * (1 / 2)"
  define b where "b = rnd h"
  define y2 where "y2 = a - b"
  define l2 where "l2 = 2 * l"
  define x2 where "x2 = rnd l2"
  define y where "y = x2 - m2"
  from l have z: "0 \<le> z" "z \<le> 1024" "1 \<le> z" "z \<le> 121 / 100" by (simp_all add: z_def)
  from rnd_nonneg [OF acc z(1,2)]
  have a: "z * (1023 / 1024) - 1 / 1048576 \<le> a" "a \<le> z * (1025 / 1024) + 1 / 1048576"
    by (simp_all add: a_def)
  from l have h: "0 \<le> h" "h \<le> 1024" "1 / 4 \<le> h" "h \<le> 355 / 1000"
    by (simp_all add: h_def)
  from rnd_nonneg [OF acc h(1,2)]
  have b: "h * (1023 / 1024) - 1 / 1048576 \<le> b" "b \<le> h * (1025 / 1024) + 1 / 1048576"
    by (simp_all add: b_def)
  have zh: "z = 2 * h + 1 / 2" by (simp add: z_def h_def)
  from a b z h zh have y2: "0 \<le> y2" "y2 \<le> 1024" "74 / 100 \<le> y2" "y2 \<le> 86 / 100"
    unfolding y2_def by linarith+
  from rnd_nonneg [OF acc y2(1,2)]
  have m2: "y2 * (1023 / 1024) - 1 / 1048576 \<le> m2" "m2 \<le> y2 * (1025 / 1024) + 1 / 1048576"
    by (simp_all add: m2_def y2_def a_def b_def z_def h_def)
  from l have l2: "0 \<le> l2" "l2 \<le> 1024" "l2 = 2 * l" by (simp_all add: l2_def)
  from rnd_nonneg [OF acc l2(1,2)]
  have x2: "l2 * (1023 / 1024) - 1 / 1048576 \<le> x2" "x2 \<le> l2 * (1025 / 1024) + 1 / 1048576"
    by (simp_all add: x2_def)
  from m2 y2 x2 l2 l have y: "0 \<le> y" "y \<le> 1024" "3 / 100 \<le> y" "y \<le> 8 / 10"
    unfolding y_def by linarith+
  from rnd_nonneg [OF acc y(1,2)]
  have m1: "y * (1023 / 1024) - 1 / 1048576 \<le> m1" "m1 \<le> y * (1025 / 1024) + 1 / 1048576"
    by (simp_all add: m1_def y_def x2_def l2_def)
  from m1 y have "1 / 50 \<le> m1" "m1 \<le> 9 / 10" by linarith+
  moreover from m2 y2 have "1 / 50 \<le> m2" "m2 \<le> 9 / 10" by linarith+
  ultimately show ?thesis by simp
qed

lemma hls_to_rgb_range:
  assumes acc: "accurate rnd" and l: "39 / 100 \<le> l" "l \<le> 71 / 100"
      and rgb: "hls_to_rgb rnd h l (1 / 2) = (r, g, b)"
  shows "component r \<and> component g \<and> component b"
proof (cases "l \<le> 1 / 2")
  case True
  define m2 where "m2 = rnd (l * rnd (3 / 2))"
  define m1 where "m1 = rnd (rnd (2 * l) - m2)"
  from m_range_low [OF acc l(1) True]
  have m: "1 / 50 \<le> m1" "m1 \<le> 9 / 10" "1 / 50 \<le> m2" "m2 \<le> 9 / 10"
    by (simp_all add: m1_def m2_def)
  from rgb True have "r = hls_v rnd m1 m2 (rnd (h + ONE_THIRD rnd))" "g = hls_v rnd m1 m2 h"
      "b = hls_v rnd m1 m2 (rnd (h - ONE_THIRD rnd))"
    by (simp_all add: hls_to_rgb_def Let_def m1_def m2_def)
  with hls_v_range [OF acc m] show ?thesis by simp
next
  case False
  define m2 where "m2 = rnd (rnd (l + 1 / 2) - rnd (l * (1 / 2)))"
  define m1 where "m1 = rnd (rnd (2 * l) - m2)"
  from False have "1 / 2 < l" by simp
  from m_range_high [OF acc this l(2)]
  have m: "1 / 50 \<le> m1" "m1 \<le> 9 / 10" "1 / 50 \<le> m2" "m2 \<le> 9 / 10"
    by (simp_all add: m1_def m2_def)
  from rgb False have "r = hls_v rnd m1 m2 (rnd (h + ONE_THIRD rnd))" "g = hls_v rnd m1 m2 h"
      "b = hls_v rnd m1 m2 (rnd (h - ONE_THIRD rnd))"
    by (simp_all add: hls_to_rgb_def Let_def m1_def m2_def)
  with hls_v_range [OF acc m] show ?thesis by simp
qed

section \<open>Two hexadecimal digits\<close>

lemma hex_digit_lower:
  assumes "d < 16"
  shows "hex_digit d \<in> set ''0123456789abcdef''"
proof -
  have "length ''0123456789abcdef'' = 16" by simp
  with assms have "''0123456789abcdef'' ! d \<in> set ''0123456789abcdef''"
    by (intro nth_mem) simp
  then show ?thesis by (simp only: hex_digit_def)
qed

lemma format_02x_byte:
  assumes "0 \<le> n" "n < 256"
  shows "\<exists>d1 d2. format_02x n = [d1, d2] \<and> d1 \<in> set ''0123456789abcdef'' \<and>
           d2 \<in> set ''0123456789abcdef''"
proof (cases "nat n < 16")
  case True
  then have "hex (nat n) = [hex_digit (nat n)]" by (subst hex.simps) simp
  with assms have "format_02x n = [CHR ''0'', hex_digit (nat n)]"
    by (simp add: format_02x_def zfill_def)
  moreover have "CHR ''0'' \<in> set ''0123456789abcdef''" by simp
  ultimately show ?thesis using hex_digit_lower [OF True] by blast
next
  case False
  from assms have d: "nat n div 16 < 16" "nat n mod 16 < 16" by auto
  from False have "hex (nat n) = hex (nat n div 16) @ [hex_digit (nat n mod 16)]"
    by (subst hex.simps) simp
  also from d(1) have "hex (nat n div 16) = [hex_digit (nat n div 16)]"
    by (subst hex.simps) simp
  finally have "format_02x n = [hex_digit (nat n div 16), hex_digit (nat n mod 16)]"
    using assms by (simp add: format_02x_def zfill_def)
  with hex_digit_lower [OF d(1)] hex_digit_lower [OF d(2)] show ?thesis by blast
qed

lemma component_byte:
  assumes acc: "accurate rnd" and c: "component c"
  shows "0 \<le> py_int (rnd (c * 256)) \<and> py_int (rnd (c * 256)) < 256"
proof -
  define w where "w = c * 256"
  from c have w: "0 \<le> w" "w \<le> 1024" "w \<le> 25344 / 100"
    by (simp_all add: w_def component_def)
  from rnd_nonneg [OF acc w(1,2)] w(3) have r: "0 \<le> rnd w" "rnd w < 256" by linarith+
  then have "0 \<le> \<lfloor>rnd w\<rfloor>" "\<lfloor>rnd w\<rfloor> < 256" by (simp_all add: floor_less_iff)
  with r(1) show ?thesis by (simp add: py_int_def w_def)
qed

lemma color_string_hex:
  assumes acc: "accurate rnd" and "component r" "component g" "component b"
  shows "is_hex_color (color_string rnd (r, g, b))"
proof -
  from format_02x_byte component_byte [OF acc assms(2)] obtain r1 r2 where
    r: "format_02x (py_int (rnd (r * 256))) = [r1, r2]"
       "r1 \<in> set ''0123456789abcdef''" "r2 \<in> set ''0123456789abcdef''"
    by blast
  from format_02x_byte component_byte [OF acc assms(3)] obtain g1 g2 where
    g: "format_02x (py_int (rnd (g * 256))) = [g1, g2]"
       "g1 \<in> set ''0123456789abcdef''" "g2 \<in> set ''0123456789abcdef''"
    by blast
  from format_02x_byte component_byte [OF acc assms(4)] obtain b1 b2 where
    b: "format_02x (py_int (rnd (b * 256))) = [b1, b2]"
       "b1 \<in> set ''0123456789abcdef''" "b2 \<in> set ''0123456789abcdef''"
    by blast
  have "color_string rnd (r, g, b) = [CHR ''#'', r1, r2, g1, g2, b1, b2]"
    by (simp add: color_string_def r(1) g(1) b(1))
  with r(2,3) g(2,3) b(2,3) show ?thesis
    by (simp add: is_hex_color_def)
qed

section \<open>The loop of \<open>palette\<close>\<close>

lemma palette_loop_length:
  "length (palette_loop rnd i hue lightness out) = length out + i"
  by (induction i arbitrary: hue lightness out) (simp_all add: Let_def)

lemma palette_loop_hex:
  assumes "accurate rnd" "0 \<le> lightness" "lightness \<le> 2" "list_all is_hex_color out"
  shows "list_all is_hex_color (palette_loop rnd i hue lightness out)"
  using assms(2-)
proof (induction i arbitrary: hue lightness out)
  case 0
  then show ?case by simp
next
  case (Suc i)
  define l where "l = rnd (rnd (4 / 10) + rnd (rnd (of_int lightness / 2) * rnd (3 / 10)))"
  define rgb where "rgb = hls_to_rgb rnd (rnd (of_int hue / 6)) l (1 / 2)"
  define hue' where "hue' = (hue + 1) mod 7"
  define lightness' where "lightness' = (if hue' = 0 then (lightness + 1) mod 3 else lightness)"
  obtain r g b where c: "rgb = (r, g, b)" by (cases rgb)
  from lightness_range [OF assms(1) Suc.prems(1,2)]
  have "39 / 100 \<le> l" "l \<le> 71 / 100" by (simp_all add: l_def)
  from hls_to_rgb_range [OF assms(1) this c [unfolded rgb_def]]
  have "is_hex_color (color_string rnd rgb)"
    unfolding c by (intro color_string_hex [OF assms(1)]) simp_all
  with Suc.prems(3) have 1: "list_all is_hex_color (out @ [color_string rnd rgb])" by simp
  from Suc.prems(1,2) have 2: "0 \<le> lightness'" "lightness' \<le> 2"
    by (auto simp: lightness'_def)
  from Suc.IH [OF 2 1, of hue'] show ?case
    by (simp add: Let_def rgb_def l_def hue'_def lightness'_def)
qed

section \<open>The claims about \<open>render\<close>\<close>

text \<open>
  Claim C1, as amended. In a row whose scan is \<open>pre @ nd # post\<close> with \<open>nd\<close> its one
  Node cell, the horizontal connectors are exactly these: a left one, from the column of
  the first Input cell before the node to the node, when at least one Input cell comes
  before the node (\<open>len(arcs) != 0\<close> at the Node cell); and a right one, from the node
  to the last Input cell after it, when at least one Input cell comes after the node
  (\<open>len(arcs) >= 2\<close> at the end of the row, the buffer then starting with the Node cell
  itself). With no Input cell on a side there is no connector for that side.
\<close>

theorem row_hlines:
  assumes scan: "row_iter r = pre @ nd # post"
      and nd: "is_node nd"
      and pre: "\<forall>c\<in>set pre. \<not> is_node c"
      and post: "\<forall>c\<in>set post. \<not> is_node c"
      and calls: "row_calls r = Inr cs"
  shows "filter is_hline cs =
           (if filter is_input pre \<noteq> []
            then [Place_left_hline (column (hd (filter is_input pre)), row r)
                    (column nd, row r) (color (hd (filter is_input pre)))]
            else []) @
           (if filter is_input post \<noteq> []
            then [Place_right_hline (column nd, row r)
                    (column (last (filter is_input post)), row r)
                    (color (last (filter is_input post)))]
            else [])"
proof -
  from calls obtain sc3 cs3 where
      all: "render_cols recorder r (row_iter r) (init_scan, []) = Inr (sc3, cs3)"
      and cs: "cs = row_end recorder r (sc3, cs3)"
    by (rule row_calls_split)
  from all scan have all': "render_cols recorder r (pre @ nd # post) (init_scan, []) = Inr (sc3, cs3)"
    by simp
  then obtain sc1 cs1 sc2 cs2 where
      a: "render_cols recorder r pre (init_scan, []) = Inr (sc1, cs1)"
      and b: "render_col recorder r nd (sc1, cs1) = Inr (sc2, cs2)"
      and c: "render_cols recorder r post (sc2, cs2) = Inr (sc3, cs3)"
    by (rule render_cols_split)
  have arcs1: "arcs sc1 = filter is_input pre"
    using render_cols_no_node [OF pre node_pos_init(1) a] by (simp add: node_pos_init)
  have h1: "filter is_hline cs1 = []"
    using render_cols_calls_kind [OF a] pre by (auto simp: filter_hline_kind)
  have h2: "filter is_hline cs2 =
      (if filter is_input pre \<noteq> []
       then [Place_left_hline (column (hd (filter is_input pre)), row r)
               (column nd, row r) (color (hd (filter is_input pre)))]
       else [])"
    using render_col_node_calls [OF nd b] h1 arcs1 by (cases "is_input nd") auto
  have h3: "filter is_hline cs3 = filter is_hline cs2"
    using render_cols_calls_kind [OF c] post by (auto simp: filter_hline_kind)
  have arcs3: "arcs sc3 = nd # filter is_input post"
    using render_cols_after_node [OF nd post all'] by simp
  show ?thesis
    unfolding cs row_end_recorder using h2 h3 arcs3
    by (cases "filter is_input post") simp_all
qed

text \<open>
  The claim as stated fails: row \<open>C\<close> of \<open>plot_AB2C\<close> has one Input cell before its node
  and one after it, and both horizontal connectors are drawn.
\<close>

theorem single_arc_hline_counterexample:
  "row_iter row_C1 = [input_A, cell_C1, input_B2] \<and>
   is_input input_A \<and> \<not> is_node input_A \<and>
   is_node cell_C1 \<and> \<not> is_input cell_C1 \<and>
   is_input input_B2 \<and> \<not> is_node input_B2 \<and>
   row_calls row_C1 =
     Inr [Place_right_arc (0, 2) 0, Place_vline_arc (0, 0) (0, 2) 0,
          Place_node (1, 2) 2 ''C'', Place_left_hline (0, 2) (1, 2) 0,
          Place_left_arc (2, 2) 1, Place_vline_arc (2, 1) (2, 2) 1,
          Place_right_hline (1, 2) (2, 2) 1, Place_label (1, 2) (3, 2) ''C'']"
  by (simp add: row_C1_iter row_C1_calls example_flags)

theorem row_hlines_witness:
  "row_iter row_C2 = [input_A, input_B] @ cell_C2 # [] \<and> is_node cell_C2 \<and>
   filter is_hline
     [Place_right_arc (0, 2) 0, Place_vline_arc (0, 0) (0, 2) 0,
      Place_right_arc (1, 2) 1, Place_vline_arc (1, 1) (1, 2) 1,
      Place_node (2, 2) 2 ''C'', Place_left_hline (0, 2) (2, 2) 0,
      Place_label (2, 2) (3, 2) ''C''] =
     [Place_left_hline (column input_A, row row_C2) (column cell_C2, row row_C2) (color input_A)]"
proof -
  have 1: "row_iter row_C2 = [input_A, input_B] @ cell_C2 # []" by (simp add: row_C2_iter)
  have 2: "\<forall>c\<in>set [input_A, input_B]. \<not> is_node c" by (simp add: example_flags)
  have 3: "\<forall>c\<in>set []. \<not> is_node c" by simp
  from row_hlines [OF 1 example_flags(10) 2 3 row_C2_calls] 1 example_flags
  show ?thesis by simp
qed

text \<open>
  Claim C2. An Input cell (that is no Node cell) met before any Node cell of its row is
  drawn with \<open>place_right_arc\<close>, one met after a Node cell with \<open>place_left_arc\<close>; no
  other arc is drawn for it, and the cell is appended to \<open>arcs\<close>.
\<close>

theorem input_arc_side:
  assumes "row_iter r = pre @ col # post"
      and "is_input col" "\<not> is_node col"
      and "render_cols recorder r pre (init_scan, []) = Inr (sc, cs)"
      and "render_col recorder r col (sc, cs) = Inr (sc', cs')"
  shows "\<exists>vl. cs' = cs @
           (if \<exists>c\<in>set pre. is_node c
            then Place_left_arc (column col, row r) (color col)
            else Place_right_arc (column col, row r) (color col)) # vl \<and>
           (\<forall>c\<in>set vl. \<not> is_arc c) \<and>
           arcs sc' = arcs sc @ [col]"
proof -
  have np: "node_pos sc = (if \<exists>c\<in>set pre. is_node c then - 1 else 1)"
    using assms(4) by (rule render_cols_node_pos)
  then have nz: "node_pos sc \<noteq> 0" by simp
  from render_col_arc_calls [OF assms(2,3) nz assms(5)] obtain vl where
    vl: "cs' = cs @
           (if node_pos sc < 0 then Place_left_arc (column col, row r) (color col)
            else Place_right_arc (column col, row r) (color col)) # vl"
        "is_last col \<longrightarrow>
              (\<exists>x. track_origin col = Inr x \<and>
                 vl = [Place_vline_arc (fst x) (column col, row r) (snd x)])"
        "\<not> is_last col \<longrightarrow> vl = []"
    by blast
  have "\<forall>c\<in>set vl. \<not> is_arc c" using vl(2,3) by (cases "is_last col") auto
  moreover have "arcs sc' = arcs sc @ [col]"
    using render_col_scan(4) [OF assms(5)] assms(2,3) nz by simp
  ultimately show ?thesis using vl(1) np by (cases "\<exists>c\<in>set pre. is_node c") auto
qed

theorem input_arc_side_witness:
  "row_iter row_C1 = [] @ input_A # [cell_C1, input_B2] \<and>
   render_col recorder row_C1 input_A (init_scan, []) =
     Inr (\<lparr> last_col = 0, arcs = [input_A], nodepos = (0, 0), node_pos = 1 \<rparr>,
          [Place_right_arc (0, 2) 0, Place_vline_arc (0, 0) (0, 2) 0]) \<and>
   hd [Place_right_arc (0, 2) 0, Place_vline_arc (0, 0) (0, 2) 0] =
     Place_right_arc (column input_A, row row_C1) (color input_A) \<and>
   row_iter row_C1 = [input_A, cell_C1] @ input_B2 # [] \<and>
   render_cols recorder row_C1 [input_A, cell_C1] (init_scan, []) =
     Inr (\<lparr> last_col = 1, arcs = [cell_C1], nodepos = (1, 2), node_pos = - 1 \<rparr>,
          [Place_right_arc (0, 2) 0, Place_vline_arc (0, 0) (0, 2) 0,
           Place_node (1, 2) 2 ''C'', Place_left_hline (0, 2) (1, 2) 0]) \<and>
   render_col recorder row_C1 input_B2
       (\<lparr> last_col = 1, arcs = [cell_C1], nodepos = (1, 2), node_pos = - 1 \<rparr>,
        [Place_right_arc (0, 2) 0, Place_vline_arc (0, 0) (0, 2) 0,
         Place_node (1, 2) 2 ''C'', Place_left_hline (0, 2) (1, 2) 0]) =
     Inr (\<lparr> last_col = 2, arcs = [cell_C1, input_B2], nodepos = (1, 2), node_pos = - 1 \<rparr>,
          [Place_right_arc (0, 2) 0, Place_vline_arc (0, 0) (0, 2) 0,
           Place_node (1, 2) 2 ''C'', Place_left_hline (0, 2) (1, 2) 0,
           Place_left_arc (2, 2) 1, Place_vline_arc (2, 1) (2, 2) 1]) \<and>
   [Place_left_arc (2, 2) 1, Place_vline_arc (2, 1) (2, 2) 1] ! 0 =
     Place_left_arc (column input_B2, row row_C1) (color input_B2)"
proof -
  have a1: "row_iter row_C1 = [] @ input_A # [cell_C1, input_B2]" by (simp add: row_C1_iter)
  have a2: "render_cols recorder row_C1 [] (init_scan, []) = Inr (init_scan, [])" by simp
  have a3: "render_col recorder row_C1 input_A (init_scan, []) =
     Inr (\<lparr> last_col = 0, arcs = [input_A], nodepos = (0, 0), node_pos = 1 \<rparr>,
          [Place_right_arc (0, 2) 0, Place_vline_arc (0, 0) (0, 2) 0])"
    by (simp add: eval_defs example_defs)
  have b1: "row_iter row_C1 = [input_A, cell_C1] @ input_B2 # []" by (simp add: row_C1_iter)
  have b2: "render_cols recorder row_C1 [input_A, cell_C1] (init_scan, []) =
     Inr (\<lparr> last_col = 1, arcs = [cell_C1], nodepos = (1, 2), node_pos = - 1 \<rparr>,
          [Place_right_arc (0, 2) 0, Place_vline_arc (0, 0) (0, 2) 0,
           Place_node (1, 2) 2 ''C'', Place_left_hline (0, 2) (1, 2) 0])"
    by (simp add: eval_defs example_defs)
  have b3: "render_col recorder row_C1 input_B2
       (\<lparr> last_col = 1, arcs = [cell_C1], nodepos = (1, 2), node_pos = - 1 \<rparr>,
        [Place_right_arc (0, 2) 0, Place_vline_arc (0, 0) (0, 2) 0,
         Place_node (1, 2) 2 ''C'', Place_left_hline (0, 2) (1, 2) 0]) =
     Inr (\<lparr> last_col = 2, arcs = [cell_C1, input_B2], nodepos = (1, 2), node_pos = - 1 \<rparr>,
          [Place_right_arc (0, 2) 0, Place_vline_arc (0, 0) (0, 2) 0,
           Place_node (1, 2) 2 ''C'', Place_left_hline (0, 2) (1, 2) 0,
           Place_left_arc (2, 2) 1, Place_vline_arc (2, 1) (2, 2) 1])"
    by (simp add: eval_defs example_defs)
  from input_arc_side [OF a1 example_flags(1,2) a2 a3]
  have "hd [Place_right_arc (0, 2) 0, Place_vline_arc (0, 0) (0, 2) 0] =
     Place_right_arc (column input_A, row row_C1) (color input_A)"
    by auto
  moreover from input_arc_side [OF b1 example_flags(7,8) b2 b3] example_flags(12)
  have "[Place_left_arc (2, 2) 1, Place_vline_arc (2, 1) (2, 2) 1] ! 0 =
     Place_left_arc (column input_B2, row row_C1) (color input_B2)"
    by auto
  ultimately show ?thesis using a1 a3 b1 b2 b3 by simp
qed

text \<open>
  Claim C3. A cell that is the Node cell of its row and an Input cell at once (the track
  arrives in the node's own column) gets exactly one vertical line, \<open>place_vline_node\<close> from
  the row where the track began down to this row, and no arc. A row that consists of such
  a cell only is drawn as node, straight vertical line and label. For a linear chain
  graph of any length, the plot built with the lowest free column in the order of the
  chain has one row for each node, and every row after the first is such a row, with the
  row above as the origin of its track: its calls are the node, one \<open>place_vline_node\<close>
  from the row above, and the label, with no arc.
\<close>

theorem straight_through:
  "(is_node col \<longrightarrow> is_input col \<longrightarrow>
      (render_col recorder r col (sc, cs) = Inr (sc', cs') \<longrightarrow>
         (\<exists>sr c0. start_row col = Some sr \<and> columns_get sr (column col) = Inr c0 \<and>
            filter is_vline (drop (length cs) cs') =
              [Place_vline_node (column col, row sr) (column col, row r) (color c0)] \<and>
            filter is_arc (drop (length cs) cs') = [])) \<and>
      (row_iter r = [col] \<longrightarrow> row_calls r = Inr out \<longrightarrow>
         (\<exists>sr c0. start_row col = Some sr \<and> columns_get sr (column col) = Inr c0 \<and>
            out = [Place_node (column col, row r) (color col) (label r),
                   Place_vline_node (column col, row sr) (column col, row r) (color c0),
                   Place_label (column col, row r) (column col + 1, row r) (label r)]))) \<and>
   (distinct nds \<longrightarrow> sequence_of (chain_graph nds) order = nds \<longrightarrow>
      (\<exists>plot. make_abstract_plot lowest_free (chain_graph nds) order = Inr plot \<and>
         length (rows plot) = length nds \<and>
         (\<forall>i. 0 < i \<longrightarrow> i < length nds \<longrightarrow>
            (\<exists>c. row_iter (rows plot ! i) = [c] \<and> is_node c \<and> is_input c \<and>
               start_row c = Some (rows plot ! (i - 1))) \<and>
            row_calls (rows plot ! i) =
              Inr [Place_node (0, int i) 0 (nds ! i),
                   Place_vline_node (0, int i - 1) (0, int i) 0,
                   Place_label (0, int i) (1, int i) (nds ! i)])))"
proof (intro conjI impI)
  assume node: "is_node col" and input: "is_input col"
     and step: "render_col recorder r col (sc, cs) = Inr (sc', cs')"
  from render_col_node_calls [OF node step] input obtain x where
    x: "track_origin col = Inr x"
       "cs' = cs @ Place_node (column col, row r) (color col) (label r) #
           (if arcs sc \<noteq> []
            then [Place_left_hline (column (hd (arcs sc)), row r) (column col, row r)
                    (color (hd (arcs sc)))]
            else []) @ [Place_vline_node (fst x) (column col, row r) (snd x)]"
    by auto
  from track_origin_Inr [OF x(1)] obtain sr c0 where
    o: "start_row col = Some sr" "columns_get sr (column col) = Inr c0"
       "x = ((column col, row sr), color c0)"
    by blast
  show "\<exists>sr c0. start_row col = Some sr \<and> columns_get sr (column col) = Inr c0 \<and>
               filter is_vline (drop (length cs) cs') =
                 [Place_vline_node (column col, row sr) (column col, row r) (color c0)] \<and>
               filter is_arc (drop (length cs) cs') = []"
    using o x(2) by (cases "arcs sc = []") simp_all
next
  assume node: "is_node col" and input: "is_input col"
     and one: "row_iter r = [col]" and calls: "row_calls r = Inr out"
  from calls obtain sc1 cs1 where
      all: "render_cols recorder r (row_iter r) (init_scan, []) = Inr (sc1, cs1)"
      and out: "out = row_end recorder r (sc1, cs1)"
    by (rule row_calls_split)
  from all one have step: "render_col recorder r col (init_scan, []) = Inr (sc1, cs1)"
    by (simp split: sum.splits)
  from render_col_node_calls [OF node step] input obtain x where
    x: "track_origin col = Inr x"
       "cs1 = [Place_node (column col, row r) (color col) (label r),
               Place_vline_node (fst x) (column col, row r) (snd x)]"
    by (auto simp: init_scan_def)
  from track_origin_Inr [OF x(1)] obtain sr c0 where
    o: "start_row col = Some sr" "columns_get sr (column col) = Inr c0"
       "x = ((column col, row sr), color c0)"
    by blast
  from render_col_scan [OF step] node
  have "arcs sc1 = [col]" "nodepos sc1 = (column col, row r)" "last_col sc1 = column col"
    by simp_all
  with out x(2) o
  show "\<exists>sr c0. start_row col = Some sr \<and> columns_get sr (column col) = Inr c0 \<and>
               out = [Place_node (column col, row r) (color col) (label r),
                      Place_vline_node (column col, row sr) (column col, row r) (color c0),
                      Place_label (column col, row r) (column col + 1, row r) (label r)]"
    by (simp add: row_end_recorder)
next
  assume d: "distinct nds" and s: "sequence_of (chain_graph nds) order = nds"
  from chain_graph_built [OF d] obtain plot where
    plot: "make_abstract_plot lowest_free (chain_graph nds) (Sequence nds) = Inr plot"
          "rows plot = chain_rows None 0 nds"
    by blast
  from plot(1) s have 1: "make_abstract_plot lowest_free (chain_graph nds) order = Inr plot"
    using make_abstract_plot_sequence [of lowest_free "chain_graph nds" order] by simp
  have 2: "length (rows plot) = length nds"
    by (simp add: plot(2) chain_rows_length)
  have 3: "(\<exists>c. row_iter (rows plot ! i) = [c] \<and> is_node c \<and> is_input c \<and>
               start_row c = Some (rows plot ! (i - 1))) \<and>
            row_calls (rows plot ! i) =
              Inr [Place_node (0, int i) 0 (nds ! i),
                   Place_vline_node (0, int i - 1) (0, int i) 0,
                   Place_label (0, int i) (1, int i) (nds ! i)]"
    if i: "0 < i" "i < length nds" for i
  proof -
    from i have "chain_row_shape (chain_rows None 0 nds ! (i - 1))
                   (chain_rows None 0 nds ! i) (0 + int i) (nds ! i)"
      using chain_rows_nth [of i nds None 0] by simp
    from chain_row_calls [OF this] show ?thesis by (simp add: plot(2))
  qed
  from 1 2 3
  show "\<exists>plot. make_abstract_plot lowest_free (chain_graph nds) order = Inr plot \<and>
         length (rows plot) = length nds \<and>
         (\<forall>i. 0 < i \<longrightarrow> i < length nds \<longrightarrow>
            (\<exists>c. row_iter (rows plot ! i) = [c] \<and> is_node c \<and> is_input c \<and>
               start_row c = Some (rows plot ! (i - 1))) \<and>
            row_calls (rows plot ! i) =
              Inr [Place_node (0, int i) 0 (nds ! i),
                   Place_vline_node (0, int i - 1) (0, int i) 0,
                   Place_label (0, int i) (1, int i) (nds ! i)])"
    by blast
qed

theorem straight_through_witness:
  "is_node chain_B \<and> is_input chain_B \<and> row_iter chain_row_B = [chain_B] \<and>
   row_calls chain_row_B =
     Inr [Place_node (0, 1) 0 ''B'', Place_vline_node (0, 0) (0, 1) 0,
          Place_label (0, 1) (1, 1) ''B''] \<and>
   start_row chain_B = Some row_A \<and> columns_get row_A (column chain_B) = Inr cell_A \<and>
   [Place_node (0, 1) 0 ''B'', Place_vline_node (0, 0) (0, 1) 0,
    Place_label (0, 1) (1, 1) ''B''] =
     [Place_node (column chain_B, row chain_row_B) (color chain_B) (label chain_row_B),
      Place_vline_node (column chain_B, row row_A) (column chain_B, row chain_row_B)
        (color cell_A),
      Place_label (column chain_B, row chain_row_B) (column chain_B + 1, row chain_row_B)
        (label chain_row_B)] \<and>
   distinct [''A'', ''B'', ''C'', ''D''] \<and>
   sequence_of (chain_graph [''A'', ''B'', ''C'', ''D''])
     (Callable (\<lambda>G. [''A'', ''B'', ''C'', ''D''])) = [''A'', ''B'', ''C'', ''D''] \<and>
   make_abstract_plot lowest_free (chain_graph [''A'', ''B'', ''C'', ''D''])
     (Callable (\<lambda>G. [''A'', ''B'', ''C'', ''D''])) = Inr plot_chain \<and>
   length (rows plot_chain) = length [''A'', ''B'', ''C'', ''D''] \<and>
   rows plot_chain ! 3 = chain_row_D \<and> rows plot_chain ! (3 - 1) = chain_row_C \<and>
   row_iter chain_row_D = [chain_D] \<and> is_node chain_D \<and> is_input chain_D \<and>
   start_row chain_D = Some chain_row_C \<and>
   row_calls chain_row_D =
     Inr [Place_node (0, 3) 0 ''D'', Place_vline_node (0, 2) (0, 3) 0,
          Place_label (0, 3) (1, 3) ''D'']"
proof -
  have 1: "row_iter chain_row_B = [chain_B]" by (simp add: row_iter_def example_defs)
  have 2: "row_calls chain_row_B =
     Inr [Place_node (0, 1) 0 ''B'', Place_vline_node (0, 0) (0, 1) 0,
          Place_label (0, 1) (1, 1) ''B'']"
    by (simp add: eval_defs example_defs)
  have 3: "start_row chain_B = Some row_A" "columns_get row_A (column chain_B) = Inr cell_A"
    by (simp_all add: columns_get_def example_defs)
  have 4: "distinct [''A'', ''B'', ''C'', ''D'']" by simp
  have 5: "sequence_of (chain_graph [''A'', ''B'', ''C'', ''D''])
     (Callable (\<lambda>G. [''A'', ''B'', ''C'', ''D''])) = [''A'', ''B'', ''C'', ''D'']"
    by (simp add: sequence_of_def)
  have 6: "make_abstract_plot lowest_free (chain_graph [''A'', ''B'', ''C'', ''D''])
     (Callable (\<lambda>G. [''A'', ''B'', ''C'', ''D''])) = Inr plot_chain"
    by (simp add: make_abstract_plot_def sequence_of_def plot_node_def chain_graph_def
        add_row_def add_input_def add_node_def columns_put_def lowest_free_def empty_plot_def
        example_defs Let_def)
  have 7: "rows plot_chain ! 3 = chain_row_D" "rows plot_chain ! (3 - 1) = chain_row_C"
          "row_iter chain_row_D = [chain_D]" "is_node chain_D" "is_input chain_D"
          "start_row chain_D = Some chain_row_C"
    by (simp_all add: row_iter_def example_defs)
  note inst = straight_through
    [where col = chain_B and r = chain_row_B and nds = "[''A'', ''B'', ''C'', ''D'']"
       and order = "Callable (\<lambda>G. [''A'', ''B'', ''C'', ''D''])"]
  from inst [THEN conjunct1, rule_format, OF example_flags(14,15), THEN conjunct2,
    rule_format, OF 1 2] 3
  have a: "[Place_node (0, 1) 0 ''B'', Place_vline_node (0, 0) (0, 1) 0,
    Place_label (0, 1) (1, 1) ''B''] =
     [Place_node (column chain_B, row chain_row_B) (color chain_B) (label chain_row_B),
      Place_vline_node (column chain_B, row row_A) (column chain_B, row chain_row_B)
        (color cell_A),
      Place_label (column chain_B, row chain_row_B) (column chain_B + 1, row chain_row_B)
        (label chain_row_B)]"
    by simp
  from inst [THEN conjunct2, rule_format, OF 4 5] 6
  have b: "length (rows plot_chain) = length [''A'', ''B'', ''C'', ''D'']"
    and c: "\<forall>i. 0 < i \<longrightarrow> i < length [''A'', ''B'', ''C'', ''D''] \<longrightarrow>
            (\<exists>c. row_iter (rows plot_chain ! i) = [c] \<and> is_node c \<and> is_input c \<and>
               start_row c = Some (rows plot_chain ! (i - 1))) \<and>
            row_calls (rows plot_chain ! i) =
              Inr [Place_node (0, int i) 0 ([''A'', ''B'', ''C'', ''D''] ! i),
                   Place_vline_node (0, int i - 1) (0, int i) 0,
                   Place_label (0, int i) (1, int i) ([''A'', ''B'', ''C'', ''D''] ! i)]"
    by auto
  from c [rule_format, of 3] 7(1)
  have d: "row_calls chain_row_D =
     Inr [Place_node (0, 3) 0 ''D'', Place_vline_node (0, 2) (0, 3) 0,
          Place_label (0, 3) (1, 3) ''D'']"
    by simp
  from 1 2 3 4 5 6 7 a b d example_flags(14,15) show ?thesis
    by - (intro conjI, assumption+)
qed

text \<open>
  Claim C4. For an Input cell drawn as an arc (it is no Node cell), \<open>render\<close> draws one
  vertical line besides, \<open>place_vline_arc\<close> from the row where the track began to the
  current position, when \<open>is_last\<close> is set, and no vertical line when it is not.
\<close>

theorem final_arc_vline:
  assumes "row_iter r = pre @ col # post"
      and "is_input col" "\<not> is_node col"
      and "render_cols recorder r pre (init_scan, []) = Inr (sc, cs)"
      and "render_col recorder r col (sc, cs) = Inr (sc', cs')"
  shows "(is_last col \<longrightarrow>
            (\<exists>sr c0. start_row col = Some sr \<and> columns_get sr (column col) = Inr c0 \<and>
               filter is_vline (drop (length cs) cs') =
                 [Place_vline_arc (column col, row sr) (column col, row r) (color c0)])) \<and>
         (\<not> is_last col \<longrightarrow> filter is_vline (drop (length cs) cs') = [])"
proof -
  have "node_pos sc = (if \<exists>c\<in>set pre. is_node c then - 1 else 1)"
    using assms(4) by (rule render_cols_node_pos)
  then have nz: "node_pos sc \<noteq> 0" by simp
  from render_col_arc_calls [OF assms(2,3) nz assms(5)] obtain vl where
    vl: "cs' = cs @
           (if node_pos sc < 0 then Place_left_arc (column col, row r) (color col)
            else Place_right_arc (column col, row r) (color col)) # vl"
        "is_last col \<longrightarrow>
              (\<exists>x. track_origin col = Inr x \<and>
                 vl = [Place_vline_arc (fst x) (column col, row r) (snd x)])"
        "\<not> is_last col \<longrightarrow> vl = []"
    by blast
  have d: "filter is_vline (drop (length cs) cs') = filter is_vline vl"
    using vl(1) by simp
  show ?thesis
  proof (cases "is_last col")
    case False
    with vl(3) d show ?thesis by simp
  next
    case True
    with vl(2) obtain x where x: "track_origin col = Inr x"
        "vl = [Place_vline_arc (fst x) (column col, row r) (snd x)]"
      by blast
    from track_origin_Inr [OF x(1)] obtain sr c0 where
      "start_row col = Some sr" "columns_get sr (column col) = Inr c0"
      "x = ((column col, row sr), color c0)"
      by blast
    with x(2) d True show ?thesis by simp
  qed
qed

theorem final_arc_vline_witness:
  "row_iter row_C2 = [input_A] @ input_B # [cell_C2] \<and> is_last input_B \<and>
   render_cols recorder row_C2 [input_A] (init_scan, []) =
     Inr (\<lparr> last_col = 0, arcs = [input_A], nodepos = (0, 0), node_pos = 1 \<rparr>,
          [Place_right_arc (0, 2) 0, Place_vline_arc (0, 0) (0, 2) 0]) \<and>
   render_col recorder row_C2 input_B
       (\<lparr> last_col = 0, arcs = [input_A], nodepos = (0, 0), node_pos = 1 \<rparr>,
        [Place_right_arc (0, 2) 0, Place_vline_arc (0, 0) (0, 2) 0]) =
     Inr (\<lparr> last_col = 1, arcs = [input_A, input_B], nodepos = (0, 0), node_pos = 1 \<rparr>,
          [Place_right_arc (0, 2) 0, Place_vline_arc (0, 0) (0, 2) 0,
           Place_right_arc (1, 2) 1, Place_vline_arc (1, 1) (1, 2) 1]) \<and>
   start_row input_B = Some row_B \<and> columns_get row_B (column input_B) = Inr cell_B \<and>
   filter is_vline [Place_right_arc (1, 2) 1, Place_vline_arc (1, 1) (1, 2) 1] =
     [Place_vline_arc (column input_B, row row_B) (column input_B, row row_C2) (color cell_B)]"
proof -
  have 1: "row_iter row_C2 = [input_A] @ input_B # [cell_C2]" by (simp add: row_C2_iter)
  have 2: "render_cols recorder row_C2 [input_A] (init_scan, []) =
     Inr (\<lparr> last_col = 0, arcs = [input_A], nodepos = (0, 0), node_pos = 1 \<rparr>,
          [Place_right_arc (0, 2) 0, Place_vline_arc (0, 0) (0, 2) 0])"
    by (simp add: eval_defs example_defs)
  have 3: "render_col recorder row_C2 input_B
       (\<lparr> last_col = 0, arcs = [input_A], nodepos = (0, 0), node_pos = 1 \<rparr>,
        [Place_right_arc (0, 2) 0, Place_vline_arc (0, 0) (0, 2) 0]) =
     Inr (\<lparr> last_col = 1, arcs = [input_A, input_B], nodepos = (0, 0), node_pos = 1 \<rparr>,
          [Place_right_arc (0, 2) 0, Place_vline_arc (0, 0) (0, 2) 0,
           Place_right_arc (1, 2) 1, Place_vline_arc (1, 1) (1, 2) 1])"
    by (simp add: eval_defs example_defs)
  have 4: "start_row input_B = Some row_B" "columns_get row_B (column input_B) = Inr cell_B"
    by (simp_all add: columns_get_def example_defs)
  from final_arc_vline [OF 1 example_flags(4,5) 2 3] example_flags(6) 4
  have "filter is_vline [Place_right_arc (1, 2) 1, Place_vline_arc (1, 1) (1, 2) 1] =
     [Place_vline_arc (column input_B, row row_B) (column input_B, row row_C2) (color cell_B)]"
    by auto
  then show ?thesis using 1 2 3 4 example_flags(6) by simp
qed

text \<open>
  Claim C5, as amended. The plot of the graph with the edges from \<open>A\<close> to \<open>C\<close> and from
  \<open>B\<close> to \<open>C\<close>, built in the order \<open>A\<close>, \<open>B\<close>, \<open>C\<close> with the lowest free column, has in
  row \<open>C\<close> two final Input cells: the one of the track of \<open>A\<close> is the Node cell as well, the
  one of the track of \<open>B\<close> comes after it. Row \<open>C\<close> is drawn with one horizontal connector,
  a right one (\<open>place_right_hline\<close>, from the node to the Input cell after it), and with
  two vertical lines, from row \<open>A\<close> and from row \<open>B\<close> down to row \<open>C\<close>.
\<close>

theorem two_final_inputs_at_node:
  "make_abstract_plot lowest_free graph_ABC (Sequence [''A'', ''B'', ''C'']) = Inr plot_ABC \<and>
   rows plot_ABC = [row_A, row_B, row_C0] \<and>
   row_iter row_C0 = [cell_C0, input_B] \<and>
   is_node cell_C0 \<and> is_input cell_C0 \<and> is_last cell_C0 \<and> start_row cell_C0 = Some row_A \<and>
   \<not> is_node input_B \<and> is_input input_B \<and> is_last input_B \<and>
   start_row input_B = Some row_B \<and>
   row_calls row_C0 =
     Inr [Place_node (0, 2) 0 ''C'', Place_vline_node (0, 0) (0, 2) 0,
          Place_left_arc (1, 2) 1, Place_vline_arc (1, 1) (1, 2) 1,
          Place_right_hline (0, 2) (1, 2) 1, Place_label (0, 2) (2, 2) ''C''] \<and>
   filter is_hline
     [Place_node (0, 2) 0 ''C'', Place_vline_node (0, 0) (0, 2) 0,
      Place_left_arc (1, 2) 1, Place_vline_arc (1, 1) (1, 2) 1,
      Place_right_hline (0, 2) (1, 2) 1, Place_label (0, 2) (2, 2) ''C''] =
     [Place_right_hline (column cell_C0, row row_C0) (column input_B, row row_C0)
        (color input_B)] \<and>
   filter is_vline
     [Place_node (0, 2) 0 ''C'', Place_vline_node (0, 0) (0, 2) 0,
      Place_left_arc (1, 2) 1, Place_vline_arc (1, 1) (1, 2) 1,
      Place_right_hline (0, 2) (1, 2) 1, Place_label (0, 2) (2, 2) ''C''] =
     [Place_vline_node (column cell_C0, row row_A) (column cell_C0, row row_C0) (color cell_A),
      Place_vline_arc (column input_B, row row_B) (column input_B, row row_C0) (color cell_B)]"
  by (simp add: ABC_as_built row_C0_iter row_C0_calls)
     (simp add: example_defs)

text \<open>
  The claim as stated fails: in that plot neither of the two Input cells of row \<open>C\<close> is in
  a column before that of the Node cell.
\<close>

theorem inputs_before_node_counterexample:
  "make_abstract_plot lowest_free graph_ABC (Sequence [''A'', ''B'', ''C'']) = Inr plot_ABC \<and>
   rows plot_ABC ! 2 = row_C0 \<and>
   filter is_input (row_iter row_C0) = [cell_C0, input_B] \<and>
   node_cell row_C0 = cell_C0 \<and>
   \<not> column cell_C0 < column (node_cell row_C0) \<and>
   \<not> column input_B < column (node_cell row_C0)"
  by (simp add: ABC_as_built row_C0_iter node_cell_def)
     (simp add: example_defs)

text \<open>
  Claim C6. When a node of the sequence has a predecessor that comes after it in the
  sequence and not before it, \<open>make_abstract_plot\<close> fails with \<open>InvalidOrderingError\<close>,
  whatever the choice of columns and colours. No plot exists then, so \<open>render\<close> is not
  entered and no primitive is called: \<open>render_svg\<close> fails with the same error.
\<close>

theorem invalid_order_raises:
  assumes "sequence_of G order = sequence"
      and "set sequence \<subseteq> dom G"
      and "i < j" "j < length sequence"
      and "G (sequence ! i) = Some v" "sequence ! j \<in> set (pred v)"
      and "sequence ! j \<notin> set (take i sequence)"
  shows "make_abstract_plot pol G order = Inl InvalidOrderingError \<and>
         (\<forall>f. order = Callable f \<longrightarrow> render_svg pol f G style = Inl InvalidOrderingError)"
proof -
  have "keys empty_plot = {}" by (simp add: keys_def empty_plot_def)
  with plot_nodes_unopened [OF assms(2) _ assms(5,6) _ assms(7), of empty_plot pol] assms(3,4)
  have "plot_nodes pol G sequence empty_plot = Inl InvalidOrderingError" by simp
  with assms(1) have "make_abstract_plot pol G order = Inl InvalidOrderingError"
    by (simp add: make_abstract_plot_def)
  then show ?thesis by (auto simp: render_svg_def)
qed

theorem invalid_order_raises_witness:
  "sequence_of graph_ABC (Callable (\<lambda>G. [''A'', ''C'', ''B''])) = [''A'', ''C'', ''B''] \<and>
   graph_ABC ([''A'', ''C'', ''B''] ! 1) =
     Some \<lparr> label_attr = None, pred = [''A'', ''B''], succ = [] \<rparr> \<and>
   [''A'', ''C'', ''B''] ! 2 = ''B'' \<and>
   make_abstract_plot lowest_free graph_ABC (Callable (\<lambda>G. [''A'', ''C'', ''B''])) =
     Inl InvalidOrderingError \<and>
   render_svg lowest_free (\<lambda>G. [''A'', ''C'', ''B'']) graph_ABC (\<lambda>c shift. (recorder, [])) =
     Inl InvalidOrderingError"
proof -
  have 1: "sequence_of graph_ABC (Callable (\<lambda>G. [''A'', ''C'', ''B''])) = [''A'', ''C'', ''B'']"
    by (simp add: sequence_of_def)
  have 2: "set [''A'', ''C'', ''B''] \<subseteq> dom graph_ABC"
    by (simp add: graph_ABC_def)
  have 3: "graph_ABC ([''A'', ''C'', ''B''] ! 1) =
     Some \<lparr> label_attr = None, pred = [''A'', ''B''], succ = [] \<rparr>"
    by (simp add: graph_ABC_def)
  have 4: "(1::nat) < 2" "2 < length [''A'', ''C'', ''B'']" by simp_all
  have 5: "[''A'', ''C'', ''B''] ! 2 \<in>
      set (pred \<lparr> label_attr = None, pred = [''A'', ''B''], succ = [] \<rparr>)"
    by simp
  have 6: "[''A'', ''C'', ''B''] ! 2 \<notin> set (take 1 [''A'', ''C'', ''B''])" by simp
  from invalid_order_raises [OF 1 2 4 3 5 6, of lowest_free "\<lambda>c shift. (recorder, [])"]
  show ?thesis using 1 3 by simp
qed

text \<open>
  Claim C7. When every row of the plot has a Node cell, the label calls of \<open>render\<close> are
  exactly one per row, in the order of the rows: \<open>place_label\<close> with the position of the
  row's node (to which the backend draws the guide line), the position one column to the
  right of the largest column of the row, in the row's own row, and the row's label.
\<close>

theorem one_label_per_row:
  assumes "\<forall>r\<in>set (rows plot). \<exists>c\<in>set (columns r). is_node c"
      and "render_calls plot = Inr cs"
  shows "filter is_label cs =
           map (\<lambda>r. Place_label (column (node_cell r), row r)
                      (Max (column ` set (columns r)) + 1, row r) (label r))
             (rows plot)"
proof -
  have "\<forall>r\<in>set rs. \<exists>c\<in>set (columns r). is_node c \<Longrightarrow>
        render_rows recorder rs [] = Inr out \<Longrightarrow>
        filter is_label out =
           map (\<lambda>r. Place_label (column (node_cell r), row r)
                      (Max (column ` set (columns r)) + 1, row r) (label r)) rs" for rs out
  proof (induction rs arbitrary: out)
    case Nil
    then show ?case by simp
  next
    case (Cons r rs)
    from render_rows_Cons_calls [OF Cons.prems(2)] obtain cs1 cs2 where
      c: "row_calls r = Inr cs1" "render_rows recorder rs [] = Inr cs2" "out = cs1 @ cs2"
      by blast
    from Cons.prems(1) have n: "\<exists>c\<in>set (columns r). is_node c" by simp
    from Cons.prems(1) have "\<forall>r\<in>set rs. \<exists>c\<in>set (columns r). is_node c" by simp
    from Cons.IH [OF this c(2)] row_label [OF n c(1)] c(3) show ?case by simp
  qed
  with assms show ?thesis by (simp add: render_calls_def)
qed

theorem one_label_per_row_witness:
  "render_calls plot_C2 =
     Inr [Place_node (0, 0) 0 ''A'', Place_label (0, 0) (1, 0) ''A'',
          Place_node (1, 1) 1 ''B'', Place_label (1, 1) (2, 1) ''B'',
          Place_right_arc (0, 2) 0, Place_vline_arc (0, 0) (0, 2) 0,
          Place_right_arc (1, 2) 1, Place_vline_arc (1, 1) (1, 2) 1,
          Place_node (2, 2) 2 ''C'', Place_left_hline (0, 2) (2, 2) 0,
          Place_label (2, 2) (3, 2) ''C''] \<and>
   filter is_label
     [Place_node (0, 0) 0 ''A'', Place_label (0, 0) (1, 0) ''A'',
      Place_node (1, 1) 1 ''B'', Place_label (1, 1) (2, 1) ''B'',
      Place_right_arc (0, 2) 0, Place_vline_arc (0, 0) (0, 2) 0,
      Place_right_arc (1, 2) 1, Place_vline_arc (1, 1) (1, 2) 1,
      Place_node (2, 2) 2 ''C'', Place_left_hline (0, 2) (2, 2) 0,
      Place_label (2, 2) (3, 2) ''C''] =
     [Place_label (column (node_cell row_A), row row_A)
        (Max (column ` set (columns row_A)) + 1, row row_A) (label row_A),
      Place_label (column (node_cell row_B), row row_B)
        (Max (column ` set (columns row_B)) + 1, row row_B) (label row_B),
      Place_label (column (node_cell row_C2), row row_C2)
        (Max (column ` set (columns row_C2)) + 1, row row_C2) (label row_C2)]"
proof -
  have 1: "\<forall>r\<in>set (rows plot_C2). \<exists>c\<in>set (columns r). is_node c"
    by (simp add: example_defs)
  have 2: "render_calls plot_C2 =
     Inr [Place_node (0, 0) 0 ''A'', Place_label (0, 0) (1, 0) ''A'',
          Place_node (1, 1) 1 ''B'', Place_label (1, 1) (2, 1) ''B'',
          Place_right_arc (0, 2) 0, Place_vline_arc (0, 0) (0, 2) 0,
          Place_right_arc (1, 2) 1, Place_vline_arc (1, 1) (1, 2) 1,
          Place_node (2, 2) 2 ''C'', Place_left_hline (0, 2) (2, 2) 0,
          Place_label (2, 2) (3, 2) ''C'']"
    by (simp add: eval_defs example_defs)
  have 3: "rows plot_C2 = [row_A, row_B, row_C2]" by (simp add: plot_C2_def)
  from one_label_per_row [OF 1 2] show ?thesis unfolding 3 using 2 by simp
qed

text \<open>
  Claim C8. What \<open>render\<close> returns is what the fresh style object serialises after the
  calls \<open>render_calls plot\<close> have been performed on it, one after the other. That sequence
  of calls is determined by the plot alone: it is the same for every backend, and so the
  same, with the same result, each time \<open>render\<close> runs on this plot with this styler.
\<close>

theorem render_by_calls:
  "render plot styler =
     (case styler (colors plot) (- columns_start plot) of
        (st, s0) \<Rightarrow>
          (case render_calls plot of
             Inl e \<Rightarrow> Inl e
           | Inr cs \<Rightarrow> Inr (dumps st (replay st cs s0))))"
  using render_rows_replay [of "fst (styler (colors plot) (- columns_start plot))" "rows plot" "snd (styler (colors plot) (- columns_start plot))"]
  by (auto simp: render_def render_calls_def split: prod.splits sum.splits)

theorem render_by_calls_witness:
  "render plot_chain
     (\<lambda>c shift. (recorder\<lparr>dumps := (\<lambda>s. if length s = 11 then ''eleven'' else [])\<rparr>, [])) =
     Inr ''eleven'' \<and>
   render_calls plot_chain =
     Inr [Place_node (0, 0) 0 ''A'', Place_label (0, 0) (1, 0) ''A'',
          Place_node (0, 1) 0 ''B'', Place_vline_node (0, 0) (0, 1) 0,
          Place_label (0, 1) (1, 1) ''B'',
          Place_node (0, 2) 0 ''C'', Place_vline_node (0, 1) (0, 2) 0,
          Place_label (0, 2) (1, 2) ''C'',
          Place_node (0, 3) 0 ''D'', Place_vline_node (0, 2) (0, 3) 0,
          Place_label (0, 3) (1, 3) ''D'']"
proof -
  have 1: "render_calls plot_chain =
     Inr [Place_node (0, 0) 0 ''A'', Place_label (0, 0) (1, 0) ''A'',
          Place_node (0, 1) 0 ''B'', Place_vline_node (0, 0) (0, 1) 0,
          Place_label (0, 1) (1, 1) ''B'',
          Place_node (0, 2) 0 ''C'', Place_vline_node (0, 1) (0, 2) 0,
          Place_label (0, 2) (1, 2) ''C'',
          Place_node (0, 3) 0 ''D'', Place_vline_node (0, 2) (0, 3) 0,
          Place_label (0, 3) (1, 3) ''D'']"
    by (simp add: eval_defs example_defs)
  show ?thesis
    using render_by_calls [of plot_chain
      "\<lambda>c shift. (recorder\<lparr>dumps := (\<lambda>s. if length s = 11 then ''eleven'' else [])\<rparr>, [])"]
    by (simp add: 1 replay_def recorder_def)
qed

text \<open>
  Claim C9. In a row with a Node cell (\<open>nd\<close>, the last one met), from the moment the
  Node cell has been visited until the end of the row the buffer \<open>arcs\<close> is not empty and
  its first entry is the Node cell; hence every \<open>place_right_hline\<close> of the row, which is
  drawn at the end of the row from \<open>arcs[0]\<close>, starts at the node's own column.
\<close>

theorem node_first_in_arcs:
  assumes "row_iter r = pre @ nd # post"
      and "is_node nd" "\<forall>c\<in>set post. \<not> is_node c"
      and "row_calls r = Inr cs"
  shows "(\<forall>p1 p2. post = p1 @ p2 \<longrightarrow>
            (\<exists>sc out. render_cols recorder r (pre @ nd # p1) (init_scan, []) = Inr (sc, out) \<and>
               arcs sc \<noteq> [] \<and> hd (arcs sc) = nd)) \<and>
         (\<forall>a b c. Place_right_hline a b c \<in> set cs \<longrightarrow> a = (column nd, row r))"
proof (intro conjI allI impI)
  from assms(4) obtain sc3 cs3 where
      all: "render_cols recorder r (row_iter r) (init_scan, []) = Inr (sc3, cs3)"
      and cs: "cs = row_end recorder r (sc3, cs3)"
    by (rule row_calls_split)
  { fix p1 p2 assume p: "post = p1 @ p2"
    with all assms(1)
    have "render_cols recorder r ((pre @ nd # p1) @ p2) (init_scan, []) = Inr (sc3, cs3)"
      by simp
    then obtain sc out where
      1: "render_cols recorder r (pre @ nd # p1) (init_scan, []) = Inr (sc, out)"
      unfolding render_cols_append [of _ _ "pre @ nd # p1"] by (auto split: sum.splits)
    from p assms(3) have "\<forall>c\<in>set p1. \<not> is_node c" by simp
    from render_cols_after_node [OF assms(2) this 1]
    have "arcs sc \<noteq> [] \<and> hd (arcs sc) = nd" by simp
    with 1
    show "\<exists>sc out. render_cols recorder r (pre @ nd # p1) (init_scan, []) = Inr (sc, out) \<and>
               arcs sc \<noteq> [] \<and> hd (arcs sc) = nd"
      by blast }
  { fix a b c assume h: "Place_right_hline a b c \<in> set cs"
    from all assms(1)
    have all': "render_cols recorder r (pre @ nd # post) (init_scan, []) = Inr (sc3, cs3)"
      by simp
    have arcs3: "arcs sc3 = nd # filter is_input post"
      using render_cols_after_node [OF assms(2,3) all'] by simp
    have "Place_right_hline a b c \<notin> set cs3"
      using render_cols_calls_kind [OF all] by fastforce
    with h show "a = (column nd, row r)"
      unfolding cs row_end_recorder using arcs3 by (auto split: if_splits) }
qed

theorem node_first_in_arcs_witness:
  "row_iter row_C1 = [input_A] @ cell_C1 # [input_B2] \<and> is_node cell_C1 \<and>
   Place_right_hline (1, 2) (2, 2) 1 \<in>
     set [Place_right_arc (0, 2) 0, Place_vline_arc (0, 0) (0, 2) 0,
          Place_node (1, 2) 2 ''C'', Place_left_hline (0, 2) (1, 2) 0,
          Place_left_arc (2, 2) 1, Place_vline_arc (2, 1) (2, 2) 1,
          Place_right_hline (1, 2) (2, 2) 1, Place_label (1, 2) (3, 2) ''C''] \<and>
   (1, 2) = (column cell_C1, row row_C1)"
proof -
  have 1: "row_iter row_C1 = [input_A] @ cell_C1 # [input_B2]" by (simp add: row_C1_iter)
  have 2: "\<forall>c\<in>set [input_B2]. \<not> is_node c" by (simp add: example_flags)
  have 3: "Place_right_hline (1, 2) (2, 2) 1 \<in>
     set [Place_right_arc (0, 2) 0, Place_vline_arc (0, 0) (0, 2) 0,
          Place_node (1, 2) 2 ''C'', Place_left_hline (0, 2) (1, 2) 0,
          Place_left_arc (2, 2) 1, Place_vline_arc (2, 1) (2, 2) 1,
          Place_right_hline (1, 2) (2, 2) 1, Place_label (1, 2) (3, 2) ''C'']"
    by simp
  from node_first_in_arcs
    [OF 1 example_flags(12) 2 row_C1_calls, THEN conjunct2, rule_format, OF 3]
  show ?thesis using 1 3 example_flags(12) by simp
qed

text \<open>
  Claim C10. For every rounding that is \<open>accurate\<close>, \<open>palette n\<close> is a list of \<open>n\<close>
  strings (none for a negative \<open>n\<close>), each of them \<open>#\<close> followed by six lower case
  hexadecimal digits: every colour component \<open>c\<close> that \<open>hls_to_rgb\<close> returns in the
  loop lies between 0 and 0.99, so \<open>int(c * 256)\<close> lies between 0 and 255 and
  \<open>:02x\<close> writes it with two digits.
\<close>

theorem palette_hex_colors:
  assumes "accurate rnd"
  shows "length (palette rnd n) = nat n \<and> list_all is_hex_color (palette rnd n)"
  using palette_loop_hex [OF assms, of 1 "[]" "nat n" 0]
  by (simp add: palette_def palette_loop_length)

theorem palette_hex_colors_witness:
  "accurate (\<lambda>x. x) \<and> length (palette (\<lambda>x. x) 8) = nat 8 \<and>
   palette (\<lambda>x. x) 8 =
     [''#c65353'', ''#c6c653'', ''#53c653'', ''#53c6c6'', ''#5353c6'', ''#c653c6'',
      ''#c65353'', ''#d98c8c''] \<and>
   list_all is_hex_color
     [''#c65353'', ''#c6c653'', ''#53c653'', ''#53c6c6'', ''#5353c6'', ''#c653c6'',
      ''#c65353'', ''#d98c8c'']"
proof -
  have 1: "accurate (\<lambda>x. x)" by (simp add: accurate_def)
  have 2: "palette (\<lambda>x. x) 8 =
     [''#c65353'', ''#c6c653'', ''#53c653'', ''#53c6c6'', ''#5353c6'', ''#c653c6'',
      ''#c65353'', ''#d98c8c'']"
    by code_simp
  from palette_hex_colors [OF 1, of 8] show ?thesis using 1 2 by simp
qed

end
